theory Spec2Isabelle
  imports Main "HOL-Library.Multiset" "HOL-Library.Product_Lexorder"
begin

section \<open>Data model of \<^verbatim>\<open>heuristic_search.py\<close>\<close>

text \<open>
  Exceptions of the Python program are values: a function that can raise returns
  \<open>error + 'a\<close>, with \<open>Inl\<close> for the exception. \<open>AssertionError\<close> is a failed
  \<^verbatim>\<open>assert\<close>, \<open>IndexError\<close> an out-of-range list access, \<open>ValueError\<close> what
  \<^verbatim>\<open>time.sleep\<close> raises when it is asked to sleep for a negative time.
\<close>

datatype error = AssertionError | IndexError | ValueError

text \<open>
  A grid cell holds either a one-character string (\<^verbatim>\<open>'A'\<close>, \<^verbatim>\<open>'#'\<close>, \<^verbatim>\<open>' '\<close>) or an
  integer, the id of the coin lying there (\<^verbatim>\<open>isinstance(cell, int)\<close> is the coin test).
\<close>

datatype cell = Sym string | Coin int

definition AGENT_SYMBOL :: cell where "AGENT_SYMBOL = Sym ''A''"
definition COIN_SYMBOL :: cell where "COIN_SYMBOL = Sym ''C''"
definition WALL_SYMBOL :: cell where "WALL_SYMBOL = Sym ''#''"
definition EMPTY_SYMBOL :: cell where "EMPTY_SYMBOL = Sym '' ''"

text \<open>
  Class \<^verbatim>\<open>Grid\<close>: \<^verbatim>\<open>width\<close> and \<^verbatim>\<open>height\<close> are results of \<^verbatim>\<open>len\<close> (or a parsed
  header followed by a successful write of the start cell), hence natural numbers;
  \<^verbatim>\<open>grid\<close> is a list of columns, \<^verbatim>\<open>grid[x][y]\<close>.
\<close>

record Grid =
  width :: nat
  height :: nat
  grid :: "cell list list"

text \<open>
  Class \<^verbatim>\<open>State\<close>: fields \<^verbatim>\<open>x\<close>, \<^verbatim>\<open>y\<close> (Python integers, possibly negative for a
  neighbour of a border cell) and \<^verbatim>\<open>coins_collected\<close> (a frozenset of coin ids). The
  field \<^verbatim>\<open>grid\<close> of the class is a back reference that no method reads
  (\<^verbatim>\<open>__tuple__\<close>, hence hashing and every comparison, leaves it out), so the record
  does not carry it.
\<close>

record State =
  pos_x :: int
  pos_y :: int
  coins_collected :: "int set"

subsection \<open>List access as Python does it\<close>

text \<open>\<^verbatim>\<open>xs[i]\<close>: a negative index counts from the end, an index out of range raises.\<close>

definition py_index :: "'a list \<Rightarrow> int \<Rightarrow> error + 'a" where
  "py_index xs i =
     (let n = int (length xs); j = (if i < 0 then i + n else i)
      in if 0 \<le> j \<and> j < n then Inr (xs ! nat j) else Inl IndexError)"

text \<open>\<^verbatim>\<open>self.grid[x][y]\<close>\<close>

definition grid_at :: "Grid \<Rightarrow> int \<Rightarrow> int \<Rightarrow> error + cell" where
  "grid_at gr cx cy =
     (case py_index (grid gr) cx of
        Inl e \<Rightarrow> Inl e
      | Inr col \<Rightarrow> py_index col cy)"

subsection \<open>State: membership and comparison operators\<close>

text \<open>
  \<^verbatim>\<open>has_collected_coin(coin_id)\<close> is \<^verbatim>\<open>coin_id in self.coins_collected\<close>; the id may
  be \<^verbatim>\<open>None\<close> (what \<^verbatim>\<open>get_coin_id\<close> returns for a cell without a coin), which is
  in no set of integers.
\<close>

definition has_collected_coin :: "State \<Rightarrow> int option \<Rightarrow> bool" where
  "has_collected_coin s coin_id =
     (case coin_id of None \<Rightarrow> False | Some c \<Rightarrow> c \<in> coins_collected s)"

text \<open>
  The comparison methods compare \<^verbatim>\<open>(x, y, coins_collected)\<close> as Python tuples: the
  first position where the two tuples differ decides, with the operator applied to the
  elements there; on frozensets \<^verbatim>\<open><\<close> is proper inclusion and \<^verbatim>\<open><=\<close> is inclusion.
  Equal tuples are \<^verbatim>\<open><=\<close> and \<^verbatim>\<open>>=\<close> but neither \<^verbatim>\<open><\<close> nor \<^verbatim>\<open>>\<close>.
\<close>

definition State_eq :: "State \<Rightarrow> State \<Rightarrow> bool" where
  "State_eq s t \<longleftrightarrow>
     pos_x s = pos_x t \<and> pos_y s = pos_y t \<and> coins_collected s = coins_collected t"

definition State_lt :: "State \<Rightarrow> State \<Rightarrow> bool" where
  "State_lt s t =
     (if pos_x s \<noteq> pos_x t then pos_x s < pos_x t
      else if pos_y s \<noteq> pos_y t then pos_y s < pos_y t
      else if coins_collected s \<noteq> coins_collected t
        then coins_collected s \<subset> coins_collected t
      else False)"

definition State_gt :: "State \<Rightarrow> State \<Rightarrow> bool" where
  "State_gt s t =
     (if pos_x s \<noteq> pos_x t then pos_x s > pos_x t
      else if pos_y s \<noteq> pos_y t then pos_y s > pos_y t
      else if coins_collected s \<noteq> coins_collected t
        then coins_collected t \<subset> coins_collected s
      else False)"

definition State_le :: "State \<Rightarrow> State \<Rightarrow> bool" where
  "State_le s t =
     (if pos_x s \<noteq> pos_x t then pos_x s \<le> pos_x t
      else if pos_y s \<noteq> pos_y t then pos_y s \<le> pos_y t
      else if coins_collected s \<noteq> coins_collected t
        then coins_collected s \<subseteq> coins_collected t
      else True)"

definition State_ge :: "State \<Rightarrow> State \<Rightarrow> bool" where
  "State_ge s t =
     (if pos_x s \<noteq> pos_x t then pos_x s \<ge> pos_x t
      else if pos_y s \<noteq> pos_y t then pos_y s \<ge> pos_y t
      else if coins_collected s \<noteq> coins_collected t
        then coins_collected t \<subseteq> coins_collected s
      else True)"

section \<open>Class \<^verbatim>\<open>Grid\<close>\<close>

definition is_within_boundaries :: "Grid \<Rightarrow> int \<Rightarrow> int \<Rightarrow> bool" where
  "is_within_boundaries gr cx cy \<longleftrightarrow>
     cx \<ge> 0 \<and> cx < int (width gr) \<and> cy \<ge> 0 \<and> cy < int (height gr)"

definition lookup :: "Grid \<Rightarrow> int \<Rightarrow> int \<Rightarrow> error + cell" where
  "lookup gr cx cy =
     (if \<not> is_within_boundaries gr cx cy then Inl AssertionError else grid_at gr cx cy)"

definition is_wall :: "Grid \<Rightarrow> int \<Rightarrow> int \<Rightarrow> error + bool" where
  "is_wall gr cx cy =
     (case lookup gr cx cy of Inl e \<Rightarrow> Inl e | Inr c \<Rightarrow> Inr (c = WALL_SYMBOL))"

definition is_coin :: "Grid \<Rightarrow> int \<Rightarrow> int \<Rightarrow> error + bool" where
  "is_coin gr cx cy =
     (case lookup gr cx cy of
        Inl e \<Rightarrow> Inl e
      | Inr c \<Rightarrow> Inr (case c of Coin _ \<Rightarrow> True | Sym _ \<Rightarrow> False))"

text \<open>
  \<^verbatim>\<open>get_coin_id\<close>: the assertion first, then \<^verbatim>\<open>is_coin\<close>, then the cell itself; the
  result is the id or \<^verbatim>\<open>None\<close>.
\<close>

definition get_coin_id :: "Grid \<Rightarrow> int \<Rightarrow> int \<Rightarrow> error + int option" where
  "get_coin_id gr cx cy =
     (if \<not> is_within_boundaries gr cx cy then Inl AssertionError
      else case is_coin gr cx cy of
        Inl e \<Rightarrow> Inl e
      | Inr b \<Rightarrow>
          if b then
            (case grid_at gr cx cy of
               Inl e \<Rightarrow> Inl e
             | Inr (Coin c) \<Rightarrow> Inr (Some c)
             | Inr (Sym _) \<Rightarrow> Inr None)
          else Inr None)"

text \<open>
  The two nested \<^verbatim>\<open>for\<close> loops of \<^verbatim>\<open>get_initial_state\<close> and
  \<^verbatim>\<open>get_coin_locations\<close> visit the cells column by column: \<^verbatim>\<open>x\<close> outside, \<^verbatim>\<open>y\<close>
  inside.
\<close>

definition cell_range :: "Grid \<Rightarrow> (nat \<times> nat) list" where
  "cell_range gr = List.product [0..<width gr] [0..<height gr]"

text \<open>
  \<^verbatim>\<open>get_initial_state\<close> returns the state of the first cell that holds the agent's
  symbol, and \<^verbatim>\<open>None\<close> after the loops when no cell does.
\<close>

fun initial_state_loop :: "Grid \<Rightarrow> (nat \<times> nat) list \<Rightarrow> error + State option" where
  "initial_state_loop gr [] = Inr None"
| "initial_state_loop gr ((cx, cy) # rest) =
     (case grid_at gr (int cx) (int cy) of
        Inl e \<Rightarrow> Inl e
      | Inr c \<Rightarrow>
          if c = AGENT_SYMBOL
          then Inr (Some \<lparr>pos_x = int cx, pos_y = int cy, coins_collected = {}\<rparr>)
          else initial_state_loop gr rest)"

definition get_initial_state :: "Grid \<Rightarrow> error + State option" where
  "get_initial_state gr = initial_state_loop gr (cell_range gr)"

fun coin_locations_loop ::
  "Grid \<Rightarrow> (nat \<times> nat) list \<Rightarrow> (int \<times> int) list \<Rightarrow> error + (int \<times> int) list" where
  "coin_locations_loop gr [] coins = Inr coins"
| "coin_locations_loop gr ((cx, cy) # rest) coins =
     (case is_coin gr (int cx) (int cy) of
        Inl e \<Rightarrow> Inl e
      | Inr b \<Rightarrow>
          coin_locations_loop gr rest (if b then coins @ [(int cx, int cy)] else coins))"

definition get_coin_locations :: "Grid \<Rightarrow> error + (int \<times> int) list" where
  "get_coin_locations gr = coin_locations_loop gr (cell_range gr) []"

text \<open>
  \<^verbatim>\<open>get_successor_states\<close>: \<^verbatim>\<open>i\<close> and \<^verbatim>\<open>j\<close> run over \<^verbatim>\<open>range(-1, 2)\<close>; the pair
  \<^verbatim>\<open>(0, 0)\<close> and the diagonals (\<^verbatim>\<open>i * j != 0\<close>) are skipped. A neighbour within the
  boundaries that is no wall is appended, with the coin of its cell added to a copy of
  the collected set.
\<close>

definition offsets :: "(int \<times> int) list" where
  "offsets = List.product [-1, 0, 1] [-1, 0, 1]"

fun successor_loop ::
  "Grid \<Rightarrow> State \<Rightarrow> (int \<times> int) list \<Rightarrow> State list \<Rightarrow> error + State list" where
  "successor_loop gr s [] result = Inr result"
| "successor_loop gr s ((i, j) # rest) result =
     (if (i = 0 \<and> j = 0) \<or> i * j \<noteq> 0 then successor_loop gr s rest result
      else if \<not> is_within_boundaries gr (pos_x s + i) (pos_y s + j)
        then successor_loop gr s rest result
      else case is_wall gr (pos_x s + i) (pos_y s + j) of
        Inl e \<Rightarrow> Inl e
      | Inr w \<Rightarrow>
          if w then successor_loop gr s rest result
          else case is_coin gr (pos_x s + i) (pos_y s + j) of
            Inl e \<Rightarrow> Inl e
          | Inr c \<Rightarrow>
              if c then
                (case grid_at gr (pos_x s + i) (pos_y s + j) of
                   Inl e \<Rightarrow> Inl e
                 | Inr (Coin k) \<Rightarrow>
                     successor_loop gr s rest
                       (result @ [\<lparr>pos_x = pos_x s + i, pos_y = pos_y s + j,
                          coins_collected = insert k (coins_collected s)\<rparr>])
                 | Inr (Sym _) \<Rightarrow>
                     successor_loop gr s rest
                       (result @ [\<lparr>pos_x = pos_x s + i, pos_y = pos_y s + j,
                          coins_collected = coins_collected s\<rparr>]))
              else successor_loop gr s rest
                     (result @ [\<lparr>pos_x = pos_x s + i, pos_y = pos_y s + j,
                        coins_collected = coins_collected s\<rparr>]))"

definition get_successor_states :: "Grid \<Rightarrow> State \<Rightarrow> error + State list" where
  "get_successor_states gr s = successor_loop gr s offsets []"

text \<open>
  The constructor \<^verbatim>\<open>Grid(inv)\<close> transposes a list of rows (\<^verbatim>\<open>inv\<close>, here
  \<open>rows\<close>) into the list of columns; it raises \<open>IndexError\<close> for an empty list of rows (\<^verbatim>\<open>inv[0]\<close>) and for a row
  shorter than the first one.
\<close>

fun collect :: "(error + 'a) list \<Rightarrow> error + 'a list" where
  "collect [] = Inr []"
| "collect (r # rs) =
     (case r of
        Inl e \<Rightarrow> Inl e
      | Inr v \<Rightarrow> (case collect rs of Inl e \<Rightarrow> Inl e | Inr vs \<Rightarrow> Inr (v # vs)))"

definition Grid_init :: "cell list list \<Rightarrow> error + Grid" where
  "Grid_init rows =
     (case py_index rows 0 of
        Inl e \<Rightarrow> Inl e
      | Inr row0 \<Rightarrow>
          (case collect (map (\<lambda>cx. collect (map (\<lambda>cy. py_index (rows ! cy) (int cx))
                                   [0..<length rows])) [0..<length row0]) of
             Inl e \<Rightarrow> Inl e
           | Inr cols \<Rightarrow> Inr \<lparr>width = length row0, height = length rows, grid = cols\<rparr>))"

text \<open>
  A grid is well formed when \<^verbatim>\<open>grid\<close> has \<^verbatim>\<open>width\<close> columns of \<^verbatim>\<open>height\<close> cells each,
  as both ways of building one (\<^verbatim>\<open>Grid(inv)\<close> and \<^verbatim>\<open>load_from_file\<close>) leave it.
\<close>

definition wf_grid :: "Grid \<Rightarrow> bool" where
  "wf_grid gr \<longleftrightarrow>
     length (grid gr) = width gr \<and> list_all (\<lambda>col. length col = height gr) (grid gr)"

section \<open>Class \<^verbatim>\<open>SearchNode\<close>\<close>

text \<open>
  A search node has the fields \<^verbatim>\<open>state\<close>, \<^verbatim>\<open>parent\<close> (a node or \<^verbatim>\<open>None\<close>), \<^verbatim>\<open>h\<close>
  and \<^verbatim>\<open>g\<close>; the selectors are \<open>state\<close>, \<open>parent\<close>, \<open>h_value\<close> and \<open>g_value\<close>.
\<close>

datatype SearchNode =
  MkNode (state: State) (parent: "SearchNode option") (h_value: int) (g_value: int)

text \<open>
  \<^verbatim>\<open>SearchNode(state, h, parent)\<close>. The state handed in may be \<^verbatim>\<open>None\<close> (what
  \<^verbatim>\<open>get_initial_state\<close> returns for a grid without agent), which the first assertion
  of the constructor rejects.
\<close>

definition SearchNode_init ::
  "State option \<Rightarrow> int \<Rightarrow> SearchNode option \<Rightarrow> error + SearchNode" where
  "SearchNode_init st hv par =
     (case st of
        None \<Rightarrow> Inl AssertionError
      | Some s \<Rightarrow>
          Inr (MkNode s par hv (case par of None \<Rightarrow> 0 | Some p \<Rightarrow> g_value p + 1)))"

text \<open>
  \<^verbatim>\<open>extract_plan\<close> appends the states from the node up to the root and reverses the
  list.
\<close>

fun plan_loop :: "SearchNode \<Rightarrow> State list \<Rightarrow> State list" where
  "plan_loop (MkNode s par hv gv) plan =
     (case par of None \<Rightarrow> plan @ [s] | Some p \<Rightarrow> plan_loop p (plan @ [s]))"

definition extract_plan :: "SearchNode \<Rightarrow> State list" where
  "extract_plan n = rev (plan_loop n [])"

definition get_f_value :: "SearchNode \<Rightarrow> int" where
  "get_f_value n = h_value n + g_value n"

text \<open>
  \<^verbatim>\<open>__lt__\<close> compares the tuples \<^verbatim>\<open>(f, g, state)\<close>: the first component that differs
  decides, the states being compared with \<^verbatim>\<open>State.__eq__\<close> and \<^verbatim>\<open>State.__lt__\<close>.
\<close>

definition SearchNode_lt :: "SearchNode \<Rightarrow> SearchNode \<Rightarrow> bool" where
  "SearchNode_lt a b =
     (if get_f_value a \<noteq> get_f_value b then get_f_value a < get_f_value b
      else if g_value a \<noteq> g_value b then g_value a < g_value b
      else if \<not> State_eq (state a) (state b) then State_lt (state a) (state b)
      else False)"

section \<open>The open list: \<^verbatim>\<open>heapq\<close>\<close>

text \<open>
  The open list is a Python list kept as a binary heap by the standard library's
  \<^verbatim>\<open>heapq.heappush\<close> and \<^verbatim>\<open>heapq.heappop\<close>, which compare items with \<^verbatim>\<open><\<close> only.
  \<^verbatim>\<open>_siftdown(heap, startpos, pos)\<close> moves the item at \<^verbatim>\<open>pos\<close> towards the root while
  it is smaller than its parent.
\<close>

function siftdown_loop ::
  "SearchNode list \<Rightarrow> SearchNode \<Rightarrow> nat \<Rightarrow> nat \<Rightarrow> SearchNode list" where
  "siftdown_loop heap newitem startpos pos =
     (if pos > startpos then
        (if SearchNode_lt newitem (heap ! ((pos - 1) div 2))
         then siftdown_loop (heap[pos := heap ! ((pos - 1) div 2)]) newitem startpos
                ((pos - 1) div 2)
         else heap[pos := newitem])
      else heap[pos := newitem])"
  by pat_completeness auto
termination
  by (relation "measure (\<lambda>(heap, newitem, startpos, pos). pos)") auto

definition siftdown :: "SearchNode list \<Rightarrow> nat \<Rightarrow> nat \<Rightarrow> SearchNode list" where
  "siftdown heap startpos pos = siftdown_loop heap (heap ! pos) startpos pos"

text \<open>
  \<^verbatim>\<open>_siftup(heap, pos)\<close> moves the smaller child up until a leaf is reached, puts the
  item there and sifts it down again. The loop returns the heap and the leaf position.
\<close>

function siftup_loop ::
  "SearchNode list \<Rightarrow> nat \<Rightarrow> nat \<Rightarrow> SearchNode list \<times> nat" where
  "siftup_loop heap endpos pos =
     (if 2 * pos + 1 < endpos then
        (if 2 * pos + 2 < endpos \<and> \<not> SearchNode_lt (heap ! (2 * pos + 1)) (heap ! (2 * pos + 2))
         then siftup_loop (heap[pos := heap ! (2 * pos + 2)]) endpos (2 * pos + 2)
         else siftup_loop (heap[pos := heap ! (2 * pos + 1)]) endpos (2 * pos + 1))
      else (heap, pos))"
  by pat_completeness auto
termination
  by (relation "measure (\<lambda>(heap, endpos, pos). endpos - pos)") auto

definition siftup :: "SearchNode list \<Rightarrow> nat \<Rightarrow> SearchNode list" where
  "siftup heap pos =
     (case siftup_loop heap (length heap) pos of
        (heap', leaf) \<Rightarrow> siftdown (heap'[leaf := heap ! pos]) pos leaf)"

definition heappush :: "SearchNode list \<Rightarrow> SearchNode \<Rightarrow> SearchNode list" where
  "heappush heap item = siftdown (heap @ [item]) 0 (length heap)"

text \<open>
  \<^verbatim>\<open>heappop\<close> takes the last item off (\<open>IndexError\<close> on an empty list); if the list is
  empty then, that item is the result, otherwise it replaces the root, is sifted up,
  and the old root is the result. The model returns the item and the heap left.
\<close>

definition heappop :: "SearchNode list \<Rightarrow> error + SearchNode \<times> SearchNode list" where
  "heappop heap =
     (if heap = [] then Inl IndexError
      else if butlast heap = [] then Inr (last heap, [])
      else Inr (hd heap, siftup ((butlast heap)[0 := last heap]) 0))"

section \<open>The heuristics\<close>

text \<open>
  A heuristic object is called with the initial state (which may be \<^verbatim>\<open>None\<close>) and with
  successor states; it returns an integer or raises.
\<close>

type_synonym Heuristic = "State option \<Rightarrow> error + int"

definition BlindHeuristic :: "Grid \<Rightarrow> Heuristic" where
  "BlindHeuristic gr st = Inr 0"

text \<open>
  \<^verbatim>\<open>has_collected_coin_at_location\<close> and the heuristics below read the module's global
  \<^verbatim>\<open>grid\<close>, the grid the script searches; it is the parameter \<open>gr\<close> here.
\<close>

definition has_collected_coin_at_location ::
  "Grid \<Rightarrow> State \<Rightarrow> int \<Rightarrow> int \<Rightarrow> error + bool" where
  "has_collected_coin_at_location gr s cx cy =
     (case is_coin gr cx cy of
        Inl e \<Rightarrow> Inl e
      | Inr b \<Rightarrow>
          if \<not> b then Inl AssertionError
          else (case get_coin_id gr cx cy of
                  Inl e \<Rightarrow> Inl e
                | Inr cid \<Rightarrow> Inr (has_collected_coin s cid)))"

text \<open>\<^verbatim>\<open>ManhattanMaxHeuristic.__call__\<close>: the loop over the coin locations.\<close>

fun manhattan_max_loop ::
  "Grid \<Rightarrow> State \<Rightarrow> (int \<times> int) list \<Rightarrow> int \<Rightarrow> error + int" where
  "manhattan_max_loop gr s [] maximum = Inr maximum"
| "manhattan_max_loop gr s ((coin_x, coin_y) # coins) maximum =
     (case has_collected_coin_at_location gr s coin_x coin_y of
        Inl e \<Rightarrow> Inl e
      | Inr collected \<Rightarrow>
          if \<not> collected
          then manhattan_max_loop gr s coins
                 (max maximum (\<bar>pos_x s - coin_x\<bar> + \<bar>pos_y s - coin_y\<bar>))
          else manhattan_max_loop gr s coins maximum)"

definition ManhattanMaxHeuristic :: "Grid \<Rightarrow> Heuristic" where
  "ManhattanMaxHeuristic gr st =
     (case st of
        None \<Rightarrow> Inl AssertionError
      | Some s \<Rightarrow>
          (case get_coin_locations gr of
             Inl e \<Rightarrow> Inl e
           | Inr coins \<Rightarrow> manhattan_max_loop gr s coins 0))"

text \<open>\<^verbatim>\<open>ManhattanSumHeuristic.__call__\<close>: the same loop, with a sum for the maximum.\<close>

fun manhattan_sum_loop ::
  "Grid \<Rightarrow> State \<Rightarrow> (int \<times> int) list \<Rightarrow> int \<Rightarrow> error + int" where
  "manhattan_sum_loop gr s [] sum_dist = Inr sum_dist"
| "manhattan_sum_loop gr s ((coin_x, coin_y) # coins) sum_dist =
     (case has_collected_coin_at_location gr s coin_x coin_y of
        Inl e \<Rightarrow> Inl e
      | Inr collected \<Rightarrow>
          if \<not> collected
          then manhattan_sum_loop gr s coins
                 (sum_dist + (\<bar>pos_x s - coin_x\<bar> + \<bar>pos_y s - coin_y\<bar>))
          else manhattan_sum_loop gr s coins sum_dist)"

definition ManhattanSumHeuristic :: "Grid \<Rightarrow> Heuristic" where
  "ManhattanSumHeuristic gr st =
     (case st of
        None \<Rightarrow> Inl AssertionError
      | Some s \<Rightarrow>
          (case get_coin_locations gr of
             Inl e \<Rightarrow> Inl e
           | Inr coins \<Rightarrow> manhattan_sum_loop gr s coins 0))"

text \<open>
  \<^verbatim>\<open>ManhattanOrderedSumHeuristic.__call__\<close>: the first loop finds the nearest
  uncollected coin, starting from the coordinates \<^verbatim>\<open>(0, 0)\<close> and the distance
  \<^verbatim>\<open>32**32\<close>; the second collects the uncollected coins, which are sorted (as pairs of
  integers) and whose consecutive distances are summed.
\<close>

fun nearest_coin_loop ::
  "Grid \<Rightarrow> State \<Rightarrow> (int \<times> int) list \<Rightarrow> int \<times> int \<times> int \<Rightarrow> error + int \<times> int \<times> int" where
  "nearest_coin_loop gr s [] acc = Inr acc"
| "nearest_coin_loop gr s ((coin_x, coin_y) # coins) (dist, c1_x, c1_y) =
     (case has_collected_coin_at_location gr s coin_x coin_y of
        Inl e \<Rightarrow> Inl e
      | Inr collected \<Rightarrow>
          if \<not> collected \<and> \<bar>pos_x s - coin_x\<bar> + \<bar>pos_y s - coin_y\<bar> < dist
          then nearest_coin_loop gr s coins
                 (\<bar>pos_x s - coin_x\<bar> + \<bar>pos_y s - coin_y\<bar>, coin_x, coin_y)
          else nearest_coin_loop gr s coins (dist, c1_x, c1_y))"

fun not_collected_loop ::
  "Grid \<Rightarrow> State \<Rightarrow> (int \<times> int) list \<Rightarrow> (int \<times> int) list \<Rightarrow> error + (int \<times> int) list" where
  "not_collected_loop gr s [] coins_not_collected = Inr coins_not_collected"
| "not_collected_loop gr s ((coin_x, coin_y) # coins) coins_not_collected =
     (case has_collected_coin_at_location gr s coin_x coin_y of
        Inl e \<Rightarrow> Inl e
      | Inr collected \<Rightarrow>
          not_collected_loop gr s coins
            (if \<not> collected then coins_not_collected @ [(coin_x, coin_y)]
             else coins_not_collected))"

fun pairwise_sum :: "(int \<times> int) list \<Rightarrow> int" where
  "pairwise_sum (p # q # rest) =
     (\<bar>fst p - fst q\<bar> + \<bar>snd p - snd q\<bar>) + pairwise_sum (q # rest)"
| "pairwise_sum _ = 0"

definition ManhattanOrderedSumHeuristic :: "Grid \<Rightarrow> Heuristic" where
  "ManhattanOrderedSumHeuristic gr st =
     (case st of
        None \<Rightarrow> Inl AssertionError
      | Some s \<Rightarrow>
          (case get_coin_locations gr of
             Inl e \<Rightarrow> Inl e
           | Inr coins \<Rightarrow>
               (case nearest_coin_loop gr s coins (32 ^ 32, 0, 0) of
                  Inl e \<Rightarrow> Inl e
                | Inr (dist, c1_x, c1_y) \<Rightarrow>
                    (case not_collected_loop gr s coins [] of
                       Inl e \<Rightarrow> Inl e
                     | Inr coins_not_collected \<Rightarrow>
                         Inr ((\<bar>pos_x s - c1_x\<bar> + \<bar>pos_y s - c1_y\<bar>)
                              + pairwise_sum (sort coins_not_collected))))))"

section \<open>\<^verbatim>\<open>astar_search\<close>\<close>

text \<open>Class \<^verbatim>\<open>SearchResult\<close>; \<^verbatim>\<open>plan\<close> is \<^verbatim>\<open>None\<close> until a goal node is found.\<close>

record SearchResult =
  expansions :: nat
  visited :: nat
  plan :: "State list option"

text \<open>
  The local variables of \<^verbatim>\<open>astar_search\<close>. The tables \<^verbatim>\<open>expanded\<close> and \<^verbatim>\<open>visited\<close>
  are nested \<^verbatim>\<open>defaultdict\<close>s indexed by \<^verbatim>\<open>[coins_collected][x][y]\<close>, that is by a
  state: \<^verbatim>\<open>expanded\<close> holds \<^verbatim>\<open>True\<close> or the default \<^verbatim>\<open>False\<close> (a set of states),
  \<^verbatim>\<open>visited\<close> a heuristic value or the default \<^verbatim>\<open>None\<close> (a partial map, named
  \<open>visited_table\<close> here to tell it from the counter \<^verbatim>\<open>result.visited\<close>).
  \<open>frames\<close> counts what the run has drawn on the console (the calls of
  \<^verbatim>\<open>print_search_progress\<close> and \<^verbatim>\<open>print_search_node\<close>), the only effect of the search
  besides its result and the time it sleeps after a drawing.
\<close>

record search_vars =
  open_list :: "SearchNode list"
  expanded :: "State set"
  visited_table :: "State \<rightharpoonup> int"
  result :: SearchResult
  frames :: nat

text \<open>How one iteration of the \<^verbatim>\<open>while\<close> loop ends: at its end or by \<^verbatim>\<open>continue\<close>, or by \<^verbatim>\<open>break\<close>.\<close>

datatype 'a ctl = Continue 'a | Break 'a

text \<open>
  The \<^verbatim>\<open>for\<close> loop over the successors of the node being expanded: a successor already
  expanded is skipped; one never visited gets its heuristic value computed and stored;
  a node with the stored value is pushed in both cases.
\<close>

fun successors_loop ::
  "Heuristic \<Rightarrow> SearchNode \<Rightarrow> State list \<Rightarrow> search_vars \<Rightarrow> error + search_vars" where
  "successors_loop heuristic node [] v = Inr v"
| "successors_loop heuristic node (succ # rest) v =
     (if succ \<in> expanded v then successors_loop heuristic node rest v
      else
        (case (if visited_table v succ = None then
                 (case heuristic (Some succ) of
                    Inl e \<Rightarrow> Inl e
                  | Inr hv \<Rightarrow>
                      Inr (v\<lparr>result := (result v)\<lparr>visited := visited (result v) + 1\<rparr>,
                             visited_table := (visited_table v)(succ \<mapsto> hv)\<rparr>))
               else Inr v) of
           Inl e \<Rightarrow> Inl e
         | Inr v' \<Rightarrow>
             (case visited_table v' succ of
                None \<Rightarrow> Inl AssertionError
              | Some hv \<Rightarrow>
                  (case SearchNode_init (Some succ) hv (Some node) of
                     Inl e \<Rightarrow> Inl e
                   | Inr n \<Rightarrow>
                       successors_loop heuristic node rest
                         (v'\<lparr>open_list := heappush (open_list v') n\<rparr>)))))"

text \<open>
  \<^verbatim>\<open>time.sleep\<close> of the standard library raises \<^verbatim>\<open>ValueError\<close> when the number of seconds
  is negative and returns nothing otherwise. The search reads nothing else of the
  number, whose type is left open: it stands for the numbers of seconds that the clock
  of the platform can count, and their negatives. What \<^verbatim>\<open>time.sleep\<close> does with a number
  beyond them (some \<open>9.2 * 10^9\<close> seconds where the clock counts nanoseconds in 64 bits)
  depends on the platform and is not modelled.
\<close>

definition time_sleep :: "'r::{zero,ord} \<Rightarrow> error + unit" where
  "time_sleep seconds = (if seconds < 0 then Inl ValueError else Inr ())"

text \<open>
  The body of the \<^verbatim>\<open>while\<close> loop, entered with a non-empty open list.
  \<^verbatim>\<open>print_rate_per_sec\<close> is a number or \<^verbatim>\<open>None\<close>. With a number the progress is drawn
  after the loop over the successors and the run sleeps for that many seconds, before
  the node is marked expanded. The \<^verbatim>\<open>break\<close> at a goal node comes earlier and does not
  sleep.
\<close>

definition astar_iteration ::
  "Grid \<Rightarrow> Heuristic \<Rightarrow> 'r::{zero,ord} option \<Rightarrow> nat \<Rightarrow> search_vars \<Rightarrow> error + search_vars ctl" where
  "astar_iteration gr heuristic print_rate_per_sec num_coins v =
     (case heappop (open_list v) of
        Inl e \<Rightarrow> Inl e
      | Inr (node, heap) \<Rightarrow>
          if state node \<in> expanded v then Inr (Continue (v\<lparr>open_list := heap\<rparr>))
          else if card (coins_collected (state node)) = num_coins then
            Inr (Break (v\<lparr>open_list := heap,
                          result := (result v)\<lparr>expansions := expansions (result v) + 1,
                                                plan := Some (extract_plan node)\<rparr>,
                          frames := frames v + 1\<rparr>))
          else
            (case get_successor_states gr (state node) of
               Inl e \<Rightarrow> Inl e
             | Inr successors \<Rightarrow>
                 (case successors_loop heuristic node successors
                         (v\<lparr>open_list := heap,
                            result := (result v)\<lparr>expansions := expansions (result v) + 1\<rparr>\<rparr>) of
                    Inl e \<Rightarrow> Inl e
                  | Inr v' \<Rightarrow>
                      (case print_rate_per_sec of
                         None \<Rightarrow>
                           Inr (Continue (v'\<lparr>expanded := insert (state node) (expanded v')\<rparr>))
                       | Some seconds \<Rightarrow>
                           (case time_sleep seconds of
                              Inl e \<Rightarrow> Inl e
                            | Inr _ \<Rightarrow>
                                Inr (Continue
                                  (v'\<lparr>frames := frames v' + 1,
                                      expanded := insert (state node) (expanded v')\<rparr>)))))))"

text \<open>
  The \<^verbatim>\<open>while\<close> loop. Nothing in its text bounds the number of iterations, so the
  result is an option: \<open>None\<close> stands for a loop that does not end.
\<close>

partial_function (option) astar_loop ::
  "Grid \<Rightarrow> Heuristic \<Rightarrow> 'r::{zero,ord} option \<Rightarrow> nat \<Rightarrow> search_vars \<Rightarrow> (error + search_vars) option" where
  "astar_loop gr heuristic print_rate_per_sec num_coins v =
     (if open_list v = [] then Some (Inr v)
      else
        (case astar_iteration gr heuristic print_rate_per_sec num_coins v of
           Inl e \<Rightarrow> Some (Inl e)
         | Inr (Break v') \<Rightarrow> Some (Inr v')
         | Inr (Continue v') \<Rightarrow> astar_loop gr heuristic print_rate_per_sec num_coins v'))"

declare astar_loop.simps [code]

text \<open>
  What \<^verbatim>\<open>astar_search\<close> does before the loop: the initial state, the number of coins,
  the root node with its heuristic value, the tables, the first drawing. The result is
  the number of coins and the variables the loop starts with.
\<close>

definition astar_init :: "Grid \<Rightarrow> Heuristic \<Rightarrow> error + nat \<times> search_vars" where
  "astar_init gr heuristic =
     (case get_initial_state gr of
        Inl e \<Rightarrow> Inl e
      | Inr initial_state \<Rightarrow>
          (case get_coin_locations gr of
             Inl e \<Rightarrow> Inl e
           | Inr coins \<Rightarrow>
               (case heuristic initial_state of
                  Inl e \<Rightarrow> Inl e
                | Inr hv \<Rightarrow>
                    (case SearchNode_init initial_state hv None of
                       Inl e \<Rightarrow> Inl e
                     | Inr root \<Rightarrow>
                         Inr (length coins,
                              \<lparr>open_list = [root], expanded = {},
                               visited_table = [state root \<mapsto> h_value root],
                               result = \<lparr>expansions = 0, visited = 0, plan = None\<rparr>,
                               frames = 1\<rparr>)))))"

definition astar_run ::
  "Grid \<Rightarrow> Heuristic \<Rightarrow> 'r::{zero,ord} option \<Rightarrow> (error + search_vars) option" where
  "astar_run gr heuristic print_rate_per_sec =
     (case astar_init gr heuristic of
        Inl e \<Rightarrow> Some (Inl e)
      | Inr (num_coins, v) \<Rightarrow> astar_loop gr heuristic print_rate_per_sec num_coins v)"

definition astar_search ::
  "Grid \<Rightarrow> Heuristic \<Rightarrow> 'r::{zero,ord} option \<Rightarrow> (error + SearchResult) option" where
  "astar_search gr heuristic print_rate_per_sec =
     map_option (map_sum id result) (astar_run gr heuristic print_rate_per_sec)"

section \<open>Notions used in the statements\<close>

text \<open>The cell of a well-formed grid at a position within its boundaries.\<close>

definition cell_at :: "Grid \<Rightarrow> int \<Rightarrow> int \<Rightarrow> cell" where
  "cell_at gr cx cy = grid gr ! nat cx ! nat cy"

text \<open>The cell holds a coin (an integer); the coin cells in the order of the loops.\<close>

definition holds_coin :: "Grid \<Rightarrow> int \<Rightarrow> int \<Rightarrow> bool" where
  "holds_coin gr cx cy = (case cell_at gr cx cy of Coin _ \<Rightarrow> True | Sym _ \<Rightarrow> False)"

definition coin_cells :: "Grid \<Rightarrow> (int \<times> int) list" where
  "coin_cells gr =
     map (\<lambda>p. (int (fst p), int (snd p)))
       (filter (\<lambda>p. holds_coin gr (int (fst p)) (int (snd p))) (cell_range gr))"

text \<open>Coin \<open>k\<close> lies at a position; a coin location whose coin the state has not collected.\<close>

definition coin_at :: "Grid \<Rightarrow> int \<Rightarrow> int \<Rightarrow> int \<Rightarrow> bool" where
  "coin_at gr cx cy k \<longleftrightarrow> is_within_boundaries gr cx cy \<and> cell_at gr cx cy = Coin k"

definition uncollected :: "Grid \<Rightarrow> State \<Rightarrow> int \<times> int \<Rightarrow> bool" where
  "uncollected gr s c \<longleftrightarrow> (\<exists>k. coin_at gr (fst c) (snd c) k \<and> k \<notin> coins_collected s)"

text \<open>The Manhattan distance from the position of a state to a cell.\<close>

definition manhattan :: "State \<Rightarrow> int \<times> int \<Rightarrow> int" where
  "manhattan s c = \<bar>pos_x s - fst c\<bar> + \<bar>pos_y s - snd c\<bar>"


text \<open>
  What claim C4 says of the successors: a cell is passable when it is within the
  boundaries and no wall; the neighbour of a state in a direction takes the coin of the
  cell it enters; a direction is axis-aligned when it is not \<open>(0, 0)\<close> and not diagonal.
\<close>

definition passable :: "Grid \<Rightarrow> int \<Rightarrow> int \<Rightarrow> bool" where
  "passable gr cx cy \<longleftrightarrow> is_within_boundaries gr cx cy \<and> cell_at gr cx cy \<noteq> WALL_SYMBOL"

definition neighbour :: "Grid \<Rightarrow> State \<Rightarrow> int \<times> int \<Rightarrow> State" where
  "neighbour gr s d =
     \<lparr>pos_x = pos_x s + fst d, pos_y = pos_y s + snd d,
      coins_collected =
        (case cell_at gr (pos_x s + fst d) (pos_y s + snd d) of
           Coin k \<Rightarrow> insert k (coins_collected s)
         | Sym _ \<Rightarrow> coins_collected s)\<rparr>"

definition axis_aligned :: "int \<times> int \<Rightarrow> bool" where
  "axis_aligned d \<longleftrightarrow> \<not> ((fst d = 0 \<and> snd d = 0) \<or> fst d * snd d \<noteq> 0)"

subsection \<open>The search loop\<close>

text \<open>The variables an iteration ends with, however it ends.\<close>

definition vars_of :: "'a ctl \<Rightarrow> 'a" where
  "vars_of c = (case c of Continue v \<Rightarrow> v | Break v \<Rightarrow> v)"

text \<open>
  The node pushed for a successor \<open>s\<close> of \<open>node\<close>: its heuristic value is the one the
  table \<^verbatim>\<open>visited\<close> holds for \<open>s\<close>.
\<close>

definition push_node :: "SearchNode \<Rightarrow> search_vars \<Rightarrow> State \<Rightarrow> SearchNode" where
  "push_node node v s = MkNode s (Some node) (the (visited_table v s)) (g_value node + 1)"

text \<open>
  The points a run of \<^verbatim>\<open>astar_search\<close> passes through at the head of its loop, and the
  one it leaves the loop with after a \<^verbatim>\<open>break\<close>: the variables as initialised, and the
  result of an iteration started from such a point with a non-empty open list.
\<close>

inductive reachable ::
  "Grid \<Rightarrow> Heuristic \<Rightarrow> 'r::{zero,ord} option \<Rightarrow> nat \<Rightarrow> search_vars ctl \<Rightarrow> bool"
  for gr :: Grid and heuristic :: Heuristic and rate :: "'r::{zero,ord} option" and num_coins :: nat
where
  start: "astar_init gr heuristic = Inr (num_coins, v) \<Longrightarrow>
          reachable gr heuristic rate num_coins (Continue v)"
| iteration: "reachable gr heuristic rate num_coins (Continue v) \<Longrightarrow> open_list v \<noteq> [] \<Longrightarrow>
          astar_iteration gr heuristic rate num_coins v = Inr c \<Longrightarrow>
          reachable gr heuristic rate num_coins c"

text \<open>
  The invariant of the tables: what is expanded has a heuristic value in \<^verbatim>\<open>visited\<close>,
  and so has the state of every node of the open list; finitely many states are
  expanded. With it, the number of expansions counted is the number of states marked
  expanded, plus one for the goal node after the \<^verbatim>\<open>break\<close>, which is not marked.
\<close>

definition tables_ok :: "search_vars \<Rightarrow> bool" where
  "tables_ok v \<longleftrightarrow>
     expanded v \<subseteq> dom (visited_table v)
     \<and> state ` set (open_list v) \<subseteq> dom (visited_table v)
     \<and> finite (expanded v)"

definition search_inv :: "search_vars ctl \<Rightarrow> bool" where
  "search_inv c \<longleftrightarrow>
     tables_ok (vars_of c)
     \<and> (case c of
           Continue v \<Rightarrow> expansions (result v) = card (expanded v) \<and> plan (result v) = None
         | Break v \<Rightarrow>
             expansions (result v) = card (expanded v) + 1
             \<and> (\<exists>node. plan (result v) = Some (extract_plan node)
                    \<and> state node \<notin> expanded v \<and> state node \<in> dom (visited_table v)))"

text \<open>Two valuations of the variables that differ at most in what was drawn.\<close>

definition same_search :: "search_vars \<Rightarrow> search_vars \<Rightarrow> bool" where
  "same_search v w \<longleftrightarrow>
     open_list v = open_list w \<and> expanded v = expanded w
     \<and> visited_table v = visited_table w \<and> result v = result w"

text \<open>
  For the example runs below: whether an iteration ended without \<^verbatim>\<open>break\<close>, and how an
  iteration without drawing ends (with the variables unchanged where it raises).
\<close>

definition is_continue :: "'a ctl \<Rightarrow> bool" where
  "is_continue c = (case c of Continue _ \<Rightarrow> True | Break _ \<Rightarrow> False)"

definition iteration_ctl ::
  "Grid \<Rightarrow> Heuristic \<Rightarrow> nat \<Rightarrow> search_vars \<Rightarrow> search_vars ctl" where
  "iteration_ctl gr heuristic num_coins v =
     (case astar_iteration gr heuristic (None :: int option) num_coins v of
        Inr c \<Rightarrow> c
      | Inl e \<Rightarrow> Continue v)"

subsection \<open>The order of the open list\<close>

text \<open>
  The part of the comparison key of a node that is totally ordered: \<^verbatim>\<open>(f, g)\<close>, compared
  lexicographically. A list is a heap for it when no item has a smaller key than its
  parent at index \<open>(i - 1) div 2\<close>; \<open>heap_hole\<close> is the same with the item at \<open>pos\<close> taken
  out, the children of \<open>pos\<close> being compared with its parent.
\<close>

definition node_key :: "SearchNode \<Rightarrow> int \<times> int" where
  "node_key n = (get_f_value n, g_value n)"

definition heap_ok :: "SearchNode list \<Rightarrow> bool" where
  "heap_ok heap \<longleftrightarrow>
     (\<forall>i. 0 < i \<and> i < length heap \<longrightarrow> node_key (heap ! ((i - 1) div 2)) \<le> node_key (heap ! i))"

definition heap_hole :: "SearchNode list \<Rightarrow> nat \<Rightarrow> bool" where
  "heap_hole heap pos \<longleftrightarrow>
     (\<forall>i. 0 < i \<and> i < length heap \<and> i \<noteq> pos \<and> (i - 1) div 2 \<noteq> pos \<longrightarrow>
          node_key (heap ! ((i - 1) div 2)) \<le> node_key (heap ! i))
     \<and> (\<forall>c. 0 < pos \<and> 0 < c \<and> c < length heap \<and> (c - 1) div 2 = pos \<longrightarrow>
          node_key (heap ! ((pos - 1) div 2)) \<le> node_key (heap ! c))"

subsection \<open>Example grids\<close>

text \<open>
  A corridor of three cells, \<^verbatim>\<open>Grid([['A', ' ', 0]])\<close>; the same without the coin; and a
  grid without agent, \<^verbatim>\<open>Grid([[' ', 0]])\<close>.
\<close>

definition corridor :: Grid where
  "corridor = \<lparr>width = 3, height = 1, grid = [[AGENT_SYMBOL], [EMPTY_SYMBOL], [Coin 0]]\<rparr>"

definition empty_corridor :: Grid where
  "empty_corridor =
     \<lparr>width = 3, height = 1, grid = [[AGENT_SYMBOL], [EMPTY_SYMBOL], [EMPTY_SYMBOL]]\<rparr>"

definition no_agent_grid :: Grid where
  "no_agent_grid = \<lparr>width = 2, height = 1, grid = [[EMPTY_SYMBOL], [Coin 0]]\<rparr>"

text \<open>
  A field of three by two cells, \<^verbatim>\<open>Grid([['A', ' ', 0], [' ', ' ', ' ']])\<close>, the nodes of
  the search on it with \<^verbatim>\<open>ManhattanMaxHeuristic\<close>, the variables at the start of the
  loop and the ends of the first three iterations. A second heuristic differs from the
  first at the initial state only.
\<close>

definition field :: Grid where
  "field = \<lparr>width = 3, height = 2,
     grid = [[AGENT_SYMBOL, EMPTY_SYMBOL], [EMPTY_SYMBOL, EMPTY_SYMBOL], [Coin 0, EMPTY_SYMBOL]]\<rparr>"

definition field_root :: SearchNode where
  "field_root = MkNode \<lparr>pos_x = 0, pos_y = 0, coins_collected = {}\<rparr> None 2 0"

definition field_mid :: SearchNode where
  "field_mid = MkNode \<lparr>pos_x = 1, pos_y = 0, coins_collected = {}\<rparr> (Some field_root) 1 1"

definition field_shallow :: SearchNode where
  "field_shallow = MkNode \<lparr>pos_x = 0, pos_y = 1, coins_collected = {}\<rparr> (Some field_root) 3 1"

definition field_deep :: SearchNode where
  "field_deep = MkNode \<lparr>pos_x = 1, pos_y = 1, coins_collected = {}\<rparr> (Some field_mid) 2 2"

definition field_goal :: SearchNode where
  "field_goal = MkNode \<lparr>pos_x = 2, pos_y = 0, coins_collected = {0}\<rparr> (Some field_mid) 0 2"

definition field_start :: search_vars where
  "field_start =
     \<lparr>open_list = [field_root], expanded = {},
      visited_table = [\<lparr>pos_x = 0, pos_y = 0, coins_collected = {}\<rparr> \<mapsto> 2],
      result = \<lparr>expansions = 0, visited = 0, plan = None\<rparr>, frames = 1\<rparr>"

definition field_ctl1 :: "search_vars ctl" where
  "field_ctl1 = iteration_ctl field (ManhattanMaxHeuristic field) 1 field_start"

definition field_ctl2 :: "search_vars ctl" where
  "field_ctl2 = iteration_ctl field (ManhattanMaxHeuristic field) 1 (vars_of field_ctl1)"

definition field_ctl3 :: "search_vars ctl" where
  "field_ctl3 = iteration_ctl field (ManhattanMaxHeuristic field) 1 (vars_of field_ctl2)"

definition field_other_heuristic :: Heuristic where
  "field_other_heuristic st =
     (if st = Some \<lparr>pos_x = 0, pos_y = 0, coins_collected = {}\<rparr> then Inr 7
      else ManhattanMaxHeuristic field st)"

text \<open>
  A square of two by two cells, \<^verbatim>\<open>Grid([['A', ' '], [' ', 0]])\<close>, searched with
  \<^verbatim>\<open>BlindHeuristic\<close>: the coin cell is reached from both neighbours of the agent cell,
  so its state is pushed twice. A second heuristic raises at that state.
\<close>

definition quad :: Grid where
  "quad = \<lparr>width = 2, height = 2,
     grid = [[AGENT_SYMBOL, EMPTY_SYMBOL], [EMPTY_SYMBOL, Coin 0]]\<rparr>"

definition quad_root :: SearchNode where
  "quad_root = MkNode \<lparr>pos_x = 0, pos_y = 0, coins_collected = {}\<rparr> None 0 0"

definition quad_down :: SearchNode where
  "quad_down = MkNode \<lparr>pos_x = 0, pos_y = 1, coins_collected = {}\<rparr> (Some quad_root) 0 1"

definition quad_right :: SearchNode where
  "quad_right = MkNode \<lparr>pos_x = 1, pos_y = 0, coins_collected = {}\<rparr> (Some quad_root) 0 1"

definition quad_first :: SearchNode where
  "quad_first = MkNode \<lparr>pos_x = 1, pos_y = 1, coins_collected = {0}\<rparr> (Some quad_down) 0 2"

definition quad_second :: SearchNode where
  "quad_second = MkNode \<lparr>pos_x = 1, pos_y = 1, coins_collected = {0}\<rparr> (Some quad_right) 0 2"

definition quad_start :: search_vars where
  "quad_start =
     \<lparr>open_list = [quad_root], expanded = {},
      visited_table = [\<lparr>pos_x = 0, pos_y = 0, coins_collected = {}\<rparr> \<mapsto> 0],
      result = \<lparr>expansions = 0, visited = 0, plan = None\<rparr>, frames = 1\<rparr>"

definition quad_ctl1 :: "search_vars ctl" where
  "quad_ctl1 = iteration_ctl quad (BlindHeuristic quad) 1 quad_start"

definition quad_ctl2 :: "search_vars ctl" where
  "quad_ctl2 = iteration_ctl quad (BlindHeuristic quad) 1 (vars_of quad_ctl1)"

definition quad_raising :: Heuristic where
  "quad_raising st =
     (if st = Some \<lparr>pos_x = 1, pos_y = 1, coins_collected = {0}\<rparr> then Inl AssertionError
      else BlindHeuristic quad st)"

section \<open>The comparison of states\<close>

lemma State_eq_iff: "State_eq s t \<longleftrightarrow> s = t"
  by (cases s, cases t) (simp add: State_eq_def)

lemma State_lt_iff:
  "State_lt s t \<longleftrightarrow>
     pos_x s < pos_x t \<or>
     (pos_x s = pos_x t \<and>
        (pos_y s < pos_y t \<or>
         (pos_y s = pos_y t \<and> coins_collected s \<subset> coins_collected t)))"
  by (auto simp: State_lt_def)

lemma State_lt_irrefl: "\<not> State_lt s s"
  by (simp add: State_lt_def)

lemma State_lt_trans: "State_lt s t \<Longrightarrow> State_lt t u \<Longrightarrow> State_lt s u"
  unfolding State_lt_iff by (elim disjE conjE) auto

lemma State_lt_asym: "State_lt s t \<Longrightarrow> \<not> State_lt t s"
  unfolding State_lt_iff by auto

lemma State_lt_total_when_comparable:
  assumes "s \<noteq> t"
    and "pos_x s \<noteq> pos_x t \<or> pos_y s \<noteq> pos_y t
         \<or> coins_collected s \<subseteq> coins_collected t \<or> coins_collected t \<subseteq> coins_collected s"
  shows "State_lt s t \<or> State_lt t s"
proof -
  from assms(1) have "pos_x s \<noteq> pos_x t \<or> pos_y s \<noteq> pos_y t \<or> coins_collected s \<noteq> coins_collected t"
    by (auto intro: State.equality)
  then consider (x) "pos_x s \<noteq> pos_x t"
    | (y) "pos_x s = pos_x t" "pos_y s \<noteq> pos_y t"
    | (c) "pos_x s = pos_x t" "pos_y s = pos_y t" "coins_collected s \<noteq> coins_collected t"
    by blast
  then show ?thesis
  proof cases
    case x
    then have "State_lt s t = (pos_x s < pos_x t)" and "State_lt t s = (pos_x t < pos_x s)"
      by (simp_all add: State_lt_def)
    moreover from x have "pos_x s < pos_x t \<or> pos_x t < pos_x s" by linarith
    ultimately show ?thesis by simp
  next
    case y
    then have "State_lt s t = (pos_y s < pos_y t)" and "State_lt t s = (pos_y t < pos_y s)"
      by (simp_all add: State_lt_def)
    moreover from y have "pos_y s < pos_y t \<or> pos_y t < pos_y s" by linarith
    ultimately show ?thesis by simp
  next
    case c
    then have "State_lt s t = (coins_collected s \<subset> coins_collected t)"
      and "State_lt t s = (coins_collected t \<subset> coins_collected s)"
      by (simp_all add: State_lt_def)
    moreover from c assms(2)
    have "coins_collected s \<subset> coins_collected t \<or> coins_collected t \<subset> coins_collected s"
      unfolding psubset_eq by blast
    ultimately show ?thesis by simp
  qed
qed

lemma State_gt_iff: "State_gt s t \<longleftrightarrow> State_lt t s"
  by (auto simp: State_gt_def State_lt_def)

lemma State_le_iff: "State_le s t \<longleftrightarrow> State_lt s t \<or> s = t"
  by (cases s, cases t) (auto simp: State_le_def State_lt_def)

lemma State_ge_iff: "State_ge s t \<longleftrightarrow> State_le t s"
  by (auto simp: State_ge_def State_le_def)

text \<open>
  Claim C2 says that the comparison operators of \<^verbatim>\<open>State\<close> form a total order,
  lexicographic on the position and the collected coins as a sorted sequence, so that of
  two distinct states exactly one is less than the other. The coin sets are frozensets,
  which \<^verbatim>\<open><\<close> compares by proper inclusion: two states at the same cell whose coin sets
  are \<open>{0}\<close> and \<open>{1}\<close> are distinct, and neither is less than the other.
\<close>

theorem State_comparison_not_total:
  "\<lparr>pos_x = 0, pos_y = 0, coins_collected = {0}\<rparr> \<noteq> \<lparr>pos_x = 0, pos_y = 0, coins_collected = {1}\<rparr>
   \<and> \<not> State_lt \<lparr>pos_x = 0, pos_y = 0, coins_collected = {0}\<rparr> \<lparr>pos_x = 0, pos_y = 0, coins_collected = {1}\<rparr>
   \<and> \<not> State_lt \<lparr>pos_x = 0, pos_y = 0, coins_collected = {1}\<rparr> \<lparr>pos_x = 0, pos_y = 0, coins_collected = {0}\<rparr>"
  by (simp add: State_lt_def psubset_eq)

text \<open>
  Claim C2 as amended: \<^verbatim>\<open><\<close> on states is lexicographic on \<^verbatim>\<open>(x, y, coins_collected)\<close>
  with the coin sets compared by proper inclusion. It is a strict partial order
  (irreflexive, transitive, asymmetric); of two distinct states exactly one is less than
  the other whenever their positions differ or one coin set includes the other; and
  \<^verbatim>\<open>>\<close>, \<^verbatim>\<open><=\<close>, \<^verbatim>\<open>>=\<close> and \<^verbatim>\<open>==\<close> are the converse, the reflexive closure, its
  converse, and equality of the three components.
\<close>

theorem State_comparison_partial_order:
  "(State_lt s t \<longleftrightarrow>
      pos_x s < pos_x t \<or>
      (pos_x s = pos_x t \<and>
         (pos_y s < pos_y t \<or>
          (pos_y s = pos_y t \<and> coins_collected s \<subset> coins_collected t))))
   \<and> \<not> State_lt s s
   \<and> (State_lt s t \<and> State_lt t u \<longrightarrow> State_lt s u)
   \<and> \<not> (State_lt s t \<and> State_lt t s)
   \<and> (s \<noteq> t \<and> (pos_x s \<noteq> pos_x t \<or> pos_y s \<noteq> pos_y t
          \<or> coins_collected s \<subseteq> coins_collected t \<or> coins_collected t \<subseteq> coins_collected s)
        \<longrightarrow> (State_lt s t \<and> \<not> State_lt t s) \<or> (State_lt t s \<and> \<not> State_lt s t))
   \<and> (State_gt s t \<longleftrightarrow> State_lt t s)
   \<and> (State_le s t \<longleftrightarrow> State_lt s t \<or> s = t)
   \<and> (State_ge s t \<longleftrightarrow> State_lt t s \<or> s = t)
   \<and> (State_eq s t \<longleftrightarrow> s = t)"
proof (intro conjI)
  show "State_lt s t \<and> State_lt t u \<longrightarrow> State_lt s u"
    using State_lt_trans by blast
  show "\<not> (State_lt s t \<and> State_lt t s)"
    using State_lt_asym by blast
  show "s \<noteq> t \<and> (pos_x s \<noteq> pos_x t \<or> pos_y s \<noteq> pos_y t
          \<or> coins_collected s \<subseteq> coins_collected t \<or> coins_collected t \<subseteq> coins_collected s)
        \<longrightarrow> (State_lt s t \<and> \<not> State_lt t s) \<or> (State_lt t s \<and> \<not> State_lt s t)"
    using State_lt_total_when_comparable [of s t] State_lt_asym by blast
  show "State_ge s t \<longleftrightarrow> State_lt t s \<or> s = t"
    using State_ge_iff [of s t] State_le_iff [of t s] by auto
qed (simp_all add: State_lt_iff [symmetric] State_lt_irrefl State_gt_iff State_le_iff State_eq_iff)

theorem State_comparison_partial_order_witness:
  "State_lt \<lparr>pos_x = 0, pos_y = 0, coins_collected = {}\<rparr> \<lparr>pos_x = 0, pos_y = 0, coins_collected = {1}\<rparr>
   \<and> State_lt \<lparr>pos_x = 0, pos_y = 0, coins_collected = {1}\<rparr> \<lparr>pos_x = 0, pos_y = 1, coins_collected = {}\<rparr>
   \<and> State_lt \<lparr>pos_x = 0, pos_y = 0, coins_collected = {}\<rparr> \<lparr>pos_x = 0, pos_y = 1, coins_collected = {}\<rparr>
   \<and> \<not> State_lt \<lparr>pos_x = 0, pos_y = 0, coins_collected = {1}\<rparr> \<lparr>pos_x = 0, pos_y = 0, coins_collected = {}\<rparr>"
proof -
  let ?a = "\<lparr>pos_x = 0, pos_y = 0, coins_collected = {}\<rparr>"
  let ?b = "\<lparr>pos_x = 0, pos_y = 0, coins_collected = {1::int}\<rparr>"
  let ?c = "\<lparr>pos_x = 0, pos_y = 1, coins_collected = {}\<rparr>"
  have ab: "State_lt ?a ?b" by (simp add: State_lt_def psubset_eq)
  have bc: "State_lt ?b ?c" by (simp add: State_lt_def)
  have ne: "?a \<noteq> ?b \<and> (pos_x ?a \<noteq> pos_x ?b \<or> pos_y ?a \<noteq> pos_y ?b
          \<or> coins_collected ?a \<subseteq> coins_collected ?b \<or> coins_collected ?b \<subseteq> coins_collected ?a)"
    by simp
  from State_comparison_partial_order [of ?a ?b ?c] ab bc ne
  show ?thesis by blast
qed

section \<open>Access to a well-formed grid\<close>

lemma wf_corridor: "wf_grid corridor"
  by (simp add: wf_grid_def corridor_def)

lemma wf_empty_corridor: "wf_grid empty_corridor"
  by (simp add: wf_grid_def empty_corridor_def)

lemma wf_no_agent_grid: "wf_grid no_agent_grid"
  by (simp add: wf_grid_def no_agent_grid_def)

lemma py_index_in_range: "0 \<le> i \<Longrightarrow> i < int (length xs) \<Longrightarrow> py_index xs i = Inr (xs ! nat i)"
  by (simp add: py_index_def Let_def)

lemma grid_at_wf:
  assumes "wf_grid gr" and "is_within_boundaries gr cx cy"
  shows "grid_at gr cx cy = Inr (cell_at gr cx cy)"
proof -
  from assms have x: "0 \<le> cx" "cx < int (length (grid gr))"
    by (simp_all add: wf_grid_def is_within_boundaries_def)
  then have "nat cx < length (grid gr)" by simp
  then have "grid gr ! nat cx \<in> set (grid gr)" by (rule nth_mem)
  with assms(1) have "length (grid gr ! nat cx) = height gr"
    by (simp add: wf_grid_def list_all_iff)
  with assms(2) have y: "0 \<le> cy" "cy < int (length (grid gr ! nat cx))"
    by (simp_all add: is_within_boundaries_def)
  show ?thesis
    by (simp add: grid_at_def py_index_in_range [OF x] py_index_in_range [OF y] cell_at_def)
qed

lemma lookup_wf:
  "wf_grid gr \<Longrightarrow> is_within_boundaries gr cx cy \<Longrightarrow> lookup gr cx cy = Inr (cell_at gr cx cy)"
  by (simp add: lookup_def grid_at_wf)

lemma is_wall_wf:
  "wf_grid gr \<Longrightarrow> is_within_boundaries gr cx cy \<Longrightarrow>
   is_wall gr cx cy = Inr (cell_at gr cx cy = WALL_SYMBOL)"
  by (simp add: is_wall_def lookup_wf)

lemma is_coin_wf:
  "wf_grid gr \<Longrightarrow> is_within_boundaries gr cx cy \<Longrightarrow>
   is_coin gr cx cy = Inr (holds_coin gr cx cy)"
  by (simp add: is_coin_def lookup_wf holds_coin_def)

lemma cell_range_within:
  "(cx, cy) \<in> set (cell_range gr) \<Longrightarrow> is_within_boundaries gr (int cx) (int cy)"
  by (simp add: cell_range_def is_within_boundaries_def)

lemma within_cell_range:
  "is_within_boundaries gr cx cy \<Longrightarrow> (nat cx, nat cy) \<in> set (cell_range gr)"
  by (auto simp: cell_range_def is_within_boundaries_def)

section \<open>The initial state\<close>

lemma initial_state_loop_none:
  assumes "wf_grid gr"
    and "\<forall>p \<in> set ps. is_within_boundaries gr (int (fst p)) (int (snd p))"
    and "\<forall>p \<in> set ps. cell_at gr (int (fst p)) (int (snd p)) \<noteq> AGENT_SYMBOL"
  shows "initial_state_loop gr ps = Inr None"
  using assms(2,3)
proof (induction ps)
  case Nil
  show ?case by simp
next
  case (Cons p ps)
  obtain cx cy where p: "p = (cx, cy)" by (cases p)
  from Cons.prems p have "is_within_boundaries gr (int cx) (int cy)"
    and "cell_at gr (int cx) (int cy) \<noteq> AGENT_SYMBOL" by simp_all
  moreover from Cons have "initial_state_loop gr ps = Inr None" by simp
  ultimately show ?case using assms(1) p by (simp add: grid_at_wf)
qed

lemma initial_state_loop_some:
  assumes "wf_grid gr"
    and "\<forall>p \<in> set ps. is_within_boundaries gr (int (fst p)) (int (snd p))"
    and "\<exists>p \<in> set ps. cell_at gr (int (fst p)) (int (snd p)) = AGENT_SYMBOL"
  shows "\<exists>pre cx cy post. ps = pre @ (cx, cy) # post
           \<and> cell_at gr (int cx) (int cy) = AGENT_SYMBOL
           \<and> (\<forall>q \<in> set pre. cell_at gr (int (fst q)) (int (snd q)) \<noteq> AGENT_SYMBOL)
           \<and> initial_state_loop gr ps
               = Inr (Some \<lparr>pos_x = int cx, pos_y = int cy, coins_collected = {}\<rparr>)"
  using assms(2,3)
proof (induction ps)
  case Nil
  then show ?case by simp
next
  case (Cons p ps)
  obtain cx cy where p: "p = (cx, cy)" by (cases p)
  from Cons.prems p have w: "is_within_boundaries gr (int cx) (int cy)" by simp
  show ?case
  proof (cases "cell_at gr (int cx) (int cy) = AGENT_SYMBOL")
    case True
    with w assms(1) p have "initial_state_loop gr (p # ps)
        = Inr (Some \<lparr>pos_x = int cx, pos_y = int cy, coins_collected = {}\<rparr>)"
      by (simp add: grid_at_wf)
    with True p have "p # ps = [] @ (cx, cy) # ps
           \<and> cell_at gr (int cx) (int cy) = AGENT_SYMBOL
           \<and> (\<forall>q \<in> set []. cell_at gr (int (fst q)) (int (snd q)) \<noteq> AGENT_SYMBOL)
           \<and> initial_state_loop gr (p # ps)
               = Inr (Some \<lparr>pos_x = int cx, pos_y = int cy, coins_collected = {}\<rparr>)"
      by simp
    then show ?thesis by blast
  next
    case False
    with Cons.prems p have "\<exists>q \<in> set ps. cell_at gr (int (fst q)) (int (snd q)) = AGENT_SYMBOL"
      by auto
    moreover from Cons.prems have "\<forall>q \<in> set ps. is_within_boundaries gr (int (fst q)) (int (snd q))"
      by simp
    ultimately obtain pre ax ay post where IH: "ps = pre @ (ax, ay) # post"
      "cell_at gr (int ax) (int ay) = AGENT_SYMBOL"
      "\<forall>q \<in> set pre. cell_at gr (int (fst q)) (int (snd q)) \<noteq> AGENT_SYMBOL"
      "initial_state_loop gr ps = Inr (Some \<lparr>pos_x = int ax, pos_y = int ay, coins_collected = {}\<rparr>)"
      using Cons.IH by blast
    from False w assms(1) p IH(4) have "initial_state_loop gr (p # ps)
        = Inr (Some \<lparr>pos_x = int ax, pos_y = int ay, coins_collected = {}\<rparr>)"
      by (simp add: grid_at_wf)
    moreover from IH(1) have "p # ps = (p # pre) @ (ax, ay) # post" by simp
    moreover from IH(3) False p
    have "\<forall>q \<in> set (p # pre). cell_at gr (int (fst q)) (int (snd q)) \<noteq> AGENT_SYMBOL" by simp
    ultimately show ?thesis using IH(2) by blast
  qed
qed

lemma cells_of_wf_grid:
  assumes "wf_grid gr"
  shows "set (concat (grid gr)) = {cell_at gr cx cy | cx cy. is_within_boundaries gr cx cy}"
proof (intro set_eqI iffI)
  fix c assume "c \<in> set (concat (grid gr))"
  then obtain col where col: "col \<in> set (grid gr)" and c: "c \<in> set col" by auto
  from col obtain i where i: "i < length (grid gr)" "col = grid gr ! i"
    by (auto simp: in_set_conv_nth)
  from c obtain j where j: "j < length col" "c = col ! j"
    by (auto simp: in_set_conv_nth)
  from assms col have "length col = height gr" by (simp add: wf_grid_def list_all_iff)
  with i j assms have "is_within_boundaries gr (int i) (int j)"
    by (simp add: is_within_boundaries_def wf_grid_def)
  moreover from i j have "c = cell_at gr (int i) (int j)" by (simp add: cell_at_def)
  ultimately show "c \<in> {cell_at gr cx cy | cx cy. is_within_boundaries gr cx cy}" by blast
next
  fix c assume "c \<in> {cell_at gr cx cy | cx cy. is_within_boundaries gr cx cy}"
  then obtain cx cy where w: "is_within_boundaries gr cx cy" and c: "c = cell_at gr cx cy"
    by blast
  from w assms have i: "nat cx < length (grid gr)"
    by (auto simp: is_within_boundaries_def wf_grid_def)
  then have col: "grid gr ! nat cx \<in> set (grid gr)" by (rule nth_mem)
  with assms have "length (grid gr ! nat cx) = height gr" by (simp add: wf_grid_def list_all_iff)
  with w have "nat cy < length (grid gr ! nat cx)" by (auto simp: is_within_boundaries_def)
  then have "grid gr ! nat cx ! nat cy \<in> set (grid gr ! nat cx)" by (rule nth_mem)
  with col c show "c \<in> set (concat (grid gr))" by (auto simp: cell_at_def)
qed

lemma cell_range_all_within:
  "\<forall>p \<in> set (cell_range gr). is_within_boundaries gr (int (fst p)) (int (snd p))"
  by (auto simp: cell_range_within)

lemma no_agent_in_range:
  assumes "wf_grid gr" and "AGENT_SYMBOL \<notin> set (concat (grid gr))"
  shows "\<forall>p \<in> set (cell_range gr). cell_at gr (int (fst p)) (int (snd p)) \<noteq> AGENT_SYMBOL"
proof
  fix p assume "p \<in> set (cell_range gr)"
  then have "is_within_boundaries gr (int (fst p)) (int (snd p))"
    using cell_range_all_within by blast
  then have "cell_at gr (int (fst p)) (int (snd p)) \<in> set (concat (grid gr))"
    unfolding cells_of_wf_grid [OF assms(1)] by blast
  with assms(2) show "cell_at gr (int (fst p)) (int (snd p)) \<noteq> AGENT_SYMBOL" by auto
qed

lemma agent_in_range:
  assumes "wf_grid gr" and "AGENT_SYMBOL \<in> set (concat (grid gr))"
  shows "\<exists>p \<in> set (cell_range gr). cell_at gr (int (fst p)) (int (snd p)) = AGENT_SYMBOL"
proof -
  from assms obtain cx cy where w: "is_within_boundaries gr cx cy"
    and c: "cell_at gr cx cy = AGENT_SYMBOL"
    unfolding cells_of_wf_grid [OF assms(1)] by auto
  from w have "(nat cx, nat cy) \<in> set (cell_range gr)" by (rule within_cell_range)
  moreover from w c have "cell_at gr (int (fst (nat cx, nat cy))) (int (snd (nat cx, nat cy))) = AGENT_SYMBOL"
    by (simp add: is_within_boundaries_def)
  ultimately show ?thesis by blast
qed

section \<open>The coin locations\<close>

lemma coin_locations_loop_wf:
  assumes "wf_grid gr"
    and "\<forall>p \<in> set ps. is_within_boundaries gr (int (fst p)) (int (snd p))"
  shows "coin_locations_loop gr ps coins =
         Inr (coins @ map (\<lambda>p. (int (fst p), int (snd p)))
                (filter (\<lambda>p. holds_coin gr (int (fst p)) (int (snd p))) ps))"
  using assms(2)
proof (induction ps arbitrary: coins)
  case Nil
  show ?case by simp
next
  case (Cons p ps)
  obtain cx cy where p: "p = (cx, cy)" by (cases p)
  from Cons.prems p have w: "is_within_boundaries gr (int cx) (int cy)" by simp
  from Cons.prems have rest: "\<forall>q \<in> set ps. is_within_boundaries gr (int (fst q)) (int (snd q))"
    by simp
  show ?case
    using p by (simp add: is_coin_wf [OF assms(1) w] Cons.IH [OF rest])
qed

lemma get_coin_locations_wf: "wf_grid gr \<Longrightarrow> get_coin_locations gr = Inr (coin_cells gr)"
  by (simp add: get_coin_locations_def coin_cells_def coin_locations_loop_wf cell_range_all_within)

lemma set_coin_cells:
  "set (coin_cells gr) = {(cx, cy). is_within_boundaries gr cx cy \<and> holds_coin gr cx cy}"
proof (intro set_eqI iffI)
  fix q assume "q \<in> set (coin_cells gr)"
  then obtain p where "p \<in> set (cell_range gr)" "holds_coin gr (int (fst p)) (int (snd p))"
    "q = (int (fst p), int (snd p))"
    by (auto simp: coin_cells_def)
  then show "q \<in> {(cx, cy). is_within_boundaries gr cx cy \<and> holds_coin gr cx cy}"
    using cell_range_all_within by auto
next
  fix q assume "q \<in> {(cx, cy). is_within_boundaries gr cx cy \<and> holds_coin gr cx cy}"
  then obtain cx cy where q: "q = (cx, cy)" and w: "is_within_boundaries gr cx cy"
    and h: "holds_coin gr cx cy" by auto
  from w have "(nat cx, nat cy) \<in> set (cell_range gr)" by (rule within_cell_range)
  moreover from w have "int (nat cx) = cx" "int (nat cy) = cy"
    by (simp_all add: is_within_boundaries_def)
  ultimately have "(cx, cy) \<in> (\<lambda>p. (int (fst p), int (snd p))) `
      {p \<in> set (cell_range gr). holds_coin gr (int (fst p)) (int (snd p))}"
    using h by force
  with q show "q \<in> set (coin_cells gr)" by (simp add: coin_cells_def)
qed

section \<open>A grid without agent\<close>

lemma astar_init_no_agent:
  assumes "wf_grid gr" and "get_initial_state gr = Inr None"
  shows "astar_init gr heuristic
           = (case heuristic None of Inl e \<Rightarrow> Inl e | Inr hv \<Rightarrow> Inl AssertionError)"
proof (cases "heuristic None")
  case (Inl e)
  with assms show ?thesis by (simp add: astar_init_def get_coin_locations_wf)
next
  case (Inr hv)
  with assms show ?thesis
    by (simp add: astar_init_def get_coin_locations_wf SearchNode_init_def)
qed

lemma astar_search_no_agent:
  assumes "wf_grid gr" and "get_initial_state gr = Inr None"
  shows "astar_search gr heuristic rate
           = Some (case heuristic None of Inl e \<Rightarrow> Inl e | Inr hv \<Rightarrow> Inl AssertionError)"
  by (cases "heuristic None")
     (simp_all add: astar_search_def astar_run_def astar_init_no_agent [OF assms])

text \<open>
  Claim C3 says that \<^verbatim>\<open>get_initial_state\<close> fails with a configuration error on a grid
  without agent cell. It raises nothing there: the loops end and it returns \<^verbatim>\<open>None\<close>.
\<close>

theorem get_initial_state_no_agent_returns_None:
  "wf_grid no_agent_grid
   \<and> AGENT_SYMBOL \<notin> set (concat (grid no_agent_grid))
   \<and> get_initial_state no_agent_grid = Inr None
   \<and> \<not> isl (get_initial_state no_agent_grid)"
  by code_simp

text \<open>
  Claim C3 as amended: on a well-formed grid without agent cell \<^verbatim>\<open>get_initial_state\<close>
  returns \<^verbatim>\<open>None\<close> and raises nothing. \<^verbatim>\<open>astar_search\<close> then ends with an exception
  before its loop, while it builds the root node: the exception that the heuristic
  raises when it is called with \<^verbatim>\<open>None\<close>, or, when the heuristic returns a value, the
  \<^verbatim>\<open>AssertionError\<close> of the constructor of \<^verbatim>\<open>SearchNode\<close>. With \<^verbatim>\<open>BlindHeuristic\<close>, which
  returns 0, and with the Manhattan heuristics, whose own assertion fails, it is an
  \<^verbatim>\<open>AssertionError\<close>. On a well-formed grid with an agent cell \<^verbatim>\<open>get_initial_state\<close>
  returns the state at the first agent cell in the order of its loops (columns from the
  left, each from the top), with no coin collected.
\<close>

theorem get_initial_state_result:
  assumes "wf_grid gr"
  shows "(AGENT_SYMBOL \<notin> set (concat (grid gr)) \<longrightarrow>
            get_initial_state gr = Inr None
            \<and> (\<forall>heuristic.
                  astar_init gr heuristic
                    = (case heuristic None of Inl e \<Rightarrow> Inl e | Inr hv \<Rightarrow> Inl AssertionError))
            \<and> (\<forall>heuristic rate.
                  astar_search gr heuristic rate
                    = Some (case heuristic None of
                              Inl e \<Rightarrow> Inl e | Inr hv \<Rightarrow> Inl AssertionError))
            \<and> (\<forall>g rate.
                  astar_search gr (BlindHeuristic g) rate = Some (Inl AssertionError)
                  \<and> astar_search gr (ManhattanMaxHeuristic g) rate = Some (Inl AssertionError)
                  \<and> astar_search gr (ManhattanSumHeuristic g) rate = Some (Inl AssertionError)
                  \<and> astar_search gr (ManhattanOrderedSumHeuristic g) rate
                      = Some (Inl AssertionError)))
       \<and> (AGENT_SYMBOL \<in> set (concat (grid gr)) \<longrightarrow>
            (\<exists>cx cy pre post.
               get_initial_state gr
                 = Inr (Some \<lparr>pos_x = int cx, pos_y = int cy, coins_collected = {}\<rparr>)
               \<and> is_within_boundaries gr (int cx) (int cy)
               \<and> cell_at gr (int cx) (int cy) = AGENT_SYMBOL
               \<and> cell_range gr = pre @ (cx, cy) # post
               \<and> (\<forall>q \<in> set pre. cell_at gr (int (fst q)) (int (snd q)) \<noteq> AGENT_SYMBOL)))"
proof (intro conjI impI allI)
  assume no: "AGENT_SYMBOL \<notin> set (concat (grid gr))"
  show none: "get_initial_state gr = Inr None"
    unfolding get_initial_state_def
    by (rule initial_state_loop_none [OF assms cell_range_all_within no_agent_in_range [OF assms no]])
  note search = astar_search_no_agent [OF assms none]
  show "astar_init gr heuristic
          = (case heuristic None of Inl e \<Rightarrow> Inl e | Inr hv \<Rightarrow> Inl AssertionError)"
    for heuristic
    by (rule astar_init_no_agent [OF assms none])
  show "astar_search gr heuristic rate
          = Some (case heuristic None of Inl e \<Rightarrow> Inl e | Inr hv \<Rightarrow> Inl AssertionError)"
    for heuristic and rate :: "'a::{zero,ord} option"
    by (rule search)
  show "astar_search gr (BlindHeuristic g) rate = Some (Inl AssertionError)"
    for g and rate :: "'b::{zero,ord} option"
    by (simp add: search BlindHeuristic_def)
  show "astar_search gr (ManhattanMaxHeuristic g) rate = Some (Inl AssertionError)"
    for g and rate :: "'b::{zero,ord} option"
    by (simp add: search ManhattanMaxHeuristic_def)
  show "astar_search gr (ManhattanSumHeuristic g) rate = Some (Inl AssertionError)"
    for g and rate :: "'b::{zero,ord} option"
    by (simp add: search ManhattanSumHeuristic_def)
  show "astar_search gr (ManhattanOrderedSumHeuristic g) rate = Some (Inl AssertionError)"
    for g and rate :: "'b::{zero,ord} option"
    by (simp add: search ManhattanOrderedSumHeuristic_def)
next
  assume "AGENT_SYMBOL \<in> set (concat (grid gr))"
  then have "\<exists>p \<in> set (cell_range gr). cell_at gr (int (fst p)) (int (snd p)) = AGENT_SYMBOL"
    by (rule agent_in_range [OF assms])
  from initial_state_loop_some [OF assms cell_range_all_within this]
  obtain pre cx cy post where r: "cell_range gr = pre @ (cx, cy) # post"
    "cell_at gr (int cx) (int cy) = AGENT_SYMBOL"
    "\<forall>q \<in> set pre. cell_at gr (int (fst q)) (int (snd q)) \<noteq> AGENT_SYMBOL"
    "initial_state_loop gr (cell_range gr)
       = Inr (Some \<lparr>pos_x = int cx, pos_y = int cy, coins_collected = {}\<rparr>)"
    by blast
  from r(1) have "(cx, cy) \<in> set (cell_range gr)" by simp
  then have "is_within_boundaries gr (int cx) (int cy)" by (rule cell_range_within)
  with r show "\<exists>cx cy pre post.
               get_initial_state gr
                 = Inr (Some \<lparr>pos_x = int cx, pos_y = int cy, coins_collected = {}\<rparr>)
               \<and> is_within_boundaries gr (int cx) (int cy)
               \<and> cell_at gr (int cx) (int cy) = AGENT_SYMBOL
               \<and> cell_range gr = pre @ (cx, cy) # post
               \<and> (\<forall>q \<in> set pre. cell_at gr (int (fst q)) (int (snd q)) \<noteq> AGENT_SYMBOL)"
    unfolding get_initial_state_def by blast
qed

theorem get_initial_state_result_witness:
  "wf_grid no_agent_grid
   \<and> AGENT_SYMBOL \<notin> set (concat (grid no_agent_grid))
   \<and> get_initial_state no_agent_grid = Inr None
   \<and> astar_init no_agent_grid (BlindHeuristic no_agent_grid) = Inl AssertionError
   \<and> astar_search no_agent_grid (BlindHeuristic no_agent_grid) (None :: int option)
       = Some (Inl AssertionError)
   \<and> astar_search no_agent_grid (ManhattanMaxHeuristic no_agent_grid) (Some (1 :: int))
       = Some (Inl AssertionError)
   \<and> astar_search no_agent_grid (\<lambda>st. Inl IndexError) (None :: int option)
       = Some (Inl IndexError)
   \<and> wf_grid corridor
   \<and> AGENT_SYMBOL \<in> set (concat (grid corridor))
   \<and> (\<exists>cx cy. get_initial_state corridor
                  = Inr (Some \<lparr>pos_x = int cx, pos_y = int cy, coins_collected = {}\<rparr>)
               \<and> cell_at corridor (int cx) (int cy) = AGENT_SYMBOL)"
proof -
  have no: "AGENT_SYMBOL \<notin> set (concat (grid no_agent_grid))"
    by (simp add: no_agent_grid_def AGENT_SYMBOL_def EMPTY_SYMBOL_def)
  have yes: "AGENT_SYMBOL \<in> set (concat (grid corridor))"
    by (simp add: corridor_def)
  note absent = get_initial_state_result [OF wf_no_agent_grid, THEN conjunct1, rule_format, OF no]
  note present = get_initial_state_result [OF wf_corridor, THEN conjunct2, rule_format, OF yes]
  have 1: "get_initial_state no_agent_grid = Inr None"
    by (rule absent [THEN conjunct1])
  have 2: "astar_init no_agent_grid (BlindHeuristic no_agent_grid) = Inl AssertionError"
    using absent [THEN conjunct2, THEN conjunct1, rule_format,
        of "BlindHeuristic no_agent_grid"]
    by (simp add: BlindHeuristic_def)
  have 3: "astar_search no_agent_grid (BlindHeuristic no_agent_grid) (None :: int option)
      = Some (Inl AssertionError)"
    "astar_search no_agent_grid (ManhattanMaxHeuristic no_agent_grid) (Some (1 :: int))
      = Some (Inl AssertionError)"
    using absent [THEN conjunct2, THEN conjunct2, THEN conjunct2, rule_format,
        of no_agent_grid "None :: int option"]
      absent [THEN conjunct2, THEN conjunct2, THEN conjunct2, rule_format,
        of no_agent_grid "Some (1 :: int)"]
    by (simp_all only: simp_thms)
  have 4: "astar_search no_agent_grid (\<lambda>st. Inl IndexError) (None :: int option)
      = Some (Inl IndexError)"
    using absent [THEN conjunct2, THEN conjunct2, THEN conjunct1, rule_format,
        of "\<lambda>st. Inl IndexError" "None :: int option"]
    by simp
  from present have 5: "\<exists>cx cy. get_initial_state corridor
                  = Inr (Some \<lparr>pos_x = int cx, pos_y = int cy, coins_collected = {}\<rparr>)
               \<and> cell_at corridor (int cx) (int cy) = AGENT_SYMBOL"
    by blast
  from wf_no_agent_grid no 1 2 3 4 wf_corridor yes 5 show ?thesis
    by (simp only: simp_thms)
qed

section \<open>The successors of a state\<close>

lemma successor_loop_wf:
  assumes "wf_grid gr"
  shows "successor_loop gr s ds acc =
         Inr (acc @ map (neighbour gr s)
                (filter (\<lambda>d. axis_aligned d \<and> passable gr (pos_x s + fst d) (pos_y s + snd d)) ds))"
proof (induction ds arbitrary: acc)
  case Nil
  show ?case by simp
next
  case (Cons d ds)
  obtain i j where d: "d = (i, j)" by (cases d)
  show ?case
  proof (cases "axis_aligned d")
    case False
    with d show ?thesis by (auto simp: axis_aligned_def Cons.IH)
  next
    case ax: True
    show ?thesis
    proof (cases "is_within_boundaries gr (pos_x s + i) (pos_y s + j)")
      case False
      with d ax show ?thesis by (simp add: axis_aligned_def passable_def Cons.IH)
    next
      case w: True
      note wall = is_wall_wf [OF assms w] and coin = is_coin_wf [OF assms w]
        and at = grid_at_wf [OF assms w]
      show ?thesis
      proof (cases "cell_at gr (pos_x s + i) (pos_y s + j)")
        case (Sym str)
        with d ax w show ?thesis
          by (simp add: axis_aligned_def passable_def wall coin at holds_coin_def
                neighbour_def Cons.IH)
      next
        case (Coin k)
        with d ax w show ?thesis
          by (simp add: axis_aligned_def passable_def wall coin at holds_coin_def
                neighbour_def Cons.IH WALL_SYMBOL_def)
      qed
    qed
  qed
qed

lemma filter_offsets:
  "filter (\<lambda>d. axis_aligned d \<and> P d) offsets = filter P [(-1, 0), (0, -1), (0, 1), (1, 0)]"
  by (simp add: offsets_def axis_aligned_def)

lemma neighbour_position:
  "pos_x (neighbour gr s d) = pos_x s + fst d" "pos_y (neighbour gr s d) = pos_y s + snd d"
  by (simp_all add: neighbour_def)

lemma neighbour_eq_iff:
  "t = neighbour gr s d \<longleftrightarrow>
     pos_x t = pos_x s + fst d \<and> pos_y t = pos_y s + snd d
     \<and> coins_collected t =
         (case cell_at gr (pos_x t) (pos_y t) of
            Coin k \<Rightarrow> insert k (coins_collected s)
          | Sym _ \<Rightarrow> coins_collected s)"
  by (cases t) (auto simp: neighbour_def)

text \<open>
  Claim C4: on a well-formed grid \<^verbatim>\<open>get_successor_states\<close> returns, in the order left,
  up, down, right of the offsets \<open>(-1, 0)\<close>, \<open>(0, -1)\<close>, \<open>(0, 1)\<close>, \<open>(1, 0)\<close>, the
  neighbours of the state that are within the boundaries and no wall; each occurs once;
  they are exactly the states one axis-aligned step away at a passable cell whose coin
  set is that of the state plus the coin of the cell entered, if it holds one; so the
  coin set of every successor includes that of the state. (The state itself need not be
  within the boundaries for this.)
\<close>

theorem get_successor_states_neighbours:
  assumes "wf_grid gr"
  shows "get_successor_states gr s =
           Inr (map (neighbour gr s)
                  (filter (\<lambda>d. passable gr (pos_x s + fst d) (pos_y s + snd d))
                     [(-1, 0), (0, -1), (0, 1), (1, 0)]))
       \<and> (\<forall>succs. get_successor_states gr s = Inr succs \<longrightarrow>
            distinct succs
            \<and> set succs =
                {t. \<exists>d \<in> {(-1, 0), (0, -1), (0, 1), (1, 0)}.
                      pos_x t = pos_x s + fst d \<and> pos_y t = pos_y s + snd d
                      \<and> is_within_boundaries gr (pos_x t) (pos_y t)
                      \<and> cell_at gr (pos_x t) (pos_y t) \<noteq> WALL_SYMBOL
                      \<and> coins_collected t =
                          (case cell_at gr (pos_x t) (pos_y t) of
                             Coin k \<Rightarrow> insert k (coins_collected s)
                           | Sym _ \<Rightarrow> coins_collected s)}
            \<and> (\<forall>t \<in> set succs. coins_collected s \<subseteq> coins_collected t))"
proof -
  define dirs :: "(int \<times> int) list" where "dirs = [(-1, 0), (0, -1), (0, 1), (1, 0)]"
  let ?ok = "\<lambda>d. passable gr (pos_x s + fst d) (pos_y s + snd d)"
  have dset: "set dirs = {(-1, 0), (0, -1), (0, 1), (1, 0)}" by (simp add: dirs_def)
  have eq: "get_successor_states gr s = Inr (map (neighbour gr s) (filter ?ok dirs))"
    by (simp only: get_successor_states_def successor_loop_wf [OF assms] filter_offsets
          append_Nil dirs_def)
  have "distinct dirs" by (simp add: dirs_def)
  then have "distinct (filter ?ok dirs)" by (rule distinct_filter)
  moreover have "inj_on (neighbour gr s) (set (filter ?ok dirs))"
    by (rule inj_onI) (metis neighbour_position prod_eqI add_left_cancel)
  ultimately have dist: "distinct (map (neighbour gr s) (filter ?ok dirs))"
    by (simp only: distinct_map)
  have set_eq: "set (map (neighbour gr s) (filter ?ok dirs)) =
      {t. \<exists>d \<in> set dirs.
            pos_x t = pos_x s + fst d \<and> pos_y t = pos_y s + snd d
            \<and> is_within_boundaries gr (pos_x t) (pos_y t)
            \<and> cell_at gr (pos_x t) (pos_y t) \<noteq> WALL_SYMBOL
            \<and> coins_collected t =
                (case cell_at gr (pos_x t) (pos_y t) of
                   Coin k \<Rightarrow> insert k (coins_collected s)
                 | Sym _ \<Rightarrow> coins_collected s)}" (is "?L = ?R")
  proof (intro set_eqI iffI)
    fix t assume "t \<in> ?L"
    then obtain d where d: "d \<in> set dirs" "?ok d" "t = neighbour gr s d" by auto
    from d(3) have "pos_x t = pos_x s + fst d" "pos_y t = pos_y s + snd d"
      "coins_collected t =
         (case cell_at gr (pos_x t) (pos_y t) of
            Coin k \<Rightarrow> insert k (coins_collected s)
          | Sym _ \<Rightarrow> coins_collected s)"
      by (simp_all add: neighbour_def)
    with d(1,2) show "t \<in> ?R" unfolding passable_def by auto
  next
    fix t assume "t \<in> ?R"
    then obtain d where d: "d \<in> set dirs"
      and t: "pos_x t = pos_x s + fst d" "pos_y t = pos_y s + snd d"
        "is_within_boundaries gr (pos_x t) (pos_y t)"
        "cell_at gr (pos_x t) (pos_y t) \<noteq> WALL_SYMBOL"
        "coins_collected t =
          (case cell_at gr (pos_x t) (pos_y t) of
             Coin k \<Rightarrow> insert k (coins_collected s)
           | Sym _ \<Rightarrow> coins_collected s)"
      by auto
    from t(1,2,5) have "t = neighbour gr s d" by (simp add: neighbour_eq_iff)
    moreover from t have "?ok d" by (simp add: passable_def)
    ultimately show "t \<in> ?L" using d by auto
  qed
  have sup: "\<forall>t \<in> set (map (neighbour gr s) (filter ?ok dirs)).
               coins_collected s \<subseteq> coins_collected t"
    by (auto simp: neighbour_def split: cell.splits)
  show ?thesis
    using eq dist set_eq sup unfolding dset unfolding dirs_def by (simp only: sum.inject) blast
qed

theorem get_successor_states_neighbours_witness:
  "wf_grid corridor
   \<and> get_successor_states corridor \<lparr>pos_x = 1, pos_y = 0, coins_collected = {}\<rparr>
       = Inr [\<lparr>pos_x = 0, pos_y = 0, coins_collected = {}\<rparr>,
              \<lparr>pos_x = 2, pos_y = 0, coins_collected = {0}\<rparr>]
   \<and> map (neighbour corridor \<lparr>pos_x = 1, pos_y = 0, coins_collected = {}\<rparr>)
         (filter (\<lambda>d. passable corridor (1 + fst d) (0 + snd d))
            [(-1, 0), (0, -1), (0, 1), (1, 0)])
       = [\<lparr>pos_x = 0, pos_y = 0, coins_collected = {}\<rparr>,
          \<lparr>pos_x = 2, pos_y = 0, coins_collected = {0}\<rparr>]"
proof -
  let ?s = "\<lparr>pos_x = 1, pos_y = 0, coins_collected = {}\<rparr>"
  have run: "get_successor_states corridor ?s
       = Inr [\<lparr>pos_x = 0, pos_y = 0, coins_collected = {}\<rparr>,
              \<lparr>pos_x = 2, pos_y = 0, coins_collected = {0}\<rparr>]"
    by code_simp
  from get_successor_states_neighbours [OF wf_corridor, of ?s] run wf_corridor
  show ?thesis by simp
qed

section \<open>The values of the heuristics\<close>

lemma coin_cells_coin_at:
  "(cx, cy) \<in> set (coin_cells gr) \<longleftrightarrow> (\<exists>k. coin_at gr cx cy k)"
  by (auto simp: set_coin_cells coin_at_def holds_coin_def split: cell.splits)

lemma has_collected_coin_at_location_wf:
  assumes "wf_grid gr" and "(cx, cy) \<in> set (coin_cells gr)"
  shows "has_collected_coin_at_location gr s cx cy = Inr (\<not> uncollected gr s (cx, cy))"
proof -
  from assms(2) obtain k where k: "coin_at gr cx cy k" by (auto simp: coin_cells_coin_at)
  then have w: "is_within_boundaries gr cx cy" and c: "cell_at gr cx cy = Coin k"
    by (simp_all add: coin_at_def)
  from c have "uncollected gr s (cx, cy) \<longleftrightarrow> k \<notin> coins_collected s"
    by (auto simp: uncollected_def coin_at_def w)
  with w c show ?thesis
    by (simp add: has_collected_coin_at_location_def is_coin_wf [OF assms(1) w] holds_coin_def
          get_coin_id_def grid_at_wf [OF assms(1) w] has_collected_coin_def)
qed

lemma manhattan_max_loop_fold:
  assumes "wf_grid gr" and "set cs \<subseteq> set (coin_cells gr)"
  shows "manhattan_max_loop gr s cs m =
         Inr (fold max (map (manhattan s) (filter (uncollected gr s) cs)) m)"
  using assms(2)
proof (induction cs arbitrary: m)
  case Nil
  show ?case by simp
next
  case (Cons c cs)
  obtain cx cy where c: "c = (cx, cy)" by (cases c)
  from Cons.prems c have "(cx, cy) \<in> set (coin_cells gr)" and "set cs \<subseteq> set (coin_cells gr)"
    by simp_all
  then show ?case
    using c by (simp add: has_collected_coin_at_location_wf [OF assms(1)] Cons.IH manhattan_def
          max.commute)
qed

lemma fold_max_Max: "fold max ds (m::int) = Max (insert m (set ds))"
  using Max.set_eq_fold [of m ds] by simp

lemma uncollected_distances:
  "set (map (manhattan s) (filter (uncollected gr s) (coin_cells gr))) =
     {\<bar>pos_x s - cx\<bar> + \<bar>pos_y s - cy\<bar> | cx cy k.
        is_within_boundaries gr cx cy \<and> cell_at gr cx cy = Coin k \<and> k \<notin> coins_collected s}"
  (is "?L = ?R")
proof (intro set_eqI iffI)
  fix d assume "d \<in> ?L"
  then obtain c where "c \<in> set (coin_cells gr)" "uncollected gr s c" "d = manhattan s c"
    by auto
  then show "d \<in> ?R"
    by (cases c) (auto simp: uncollected_def coin_at_def manhattan_def)
next
  fix d assume "d \<in> ?R"
  then obtain cx cy k where k: "coin_at gr cx cy k" "k \<notin> coins_collected s"
    and d: "d = \<bar>pos_x s - cx\<bar> + \<bar>pos_y s - cy\<bar>"
    by (auto simp: coin_at_def)
  from k have "(cx, cy) \<in> set (coin_cells gr)" "uncollected gr s (cx, cy)"
    by (auto simp: coin_cells_coin_at uncollected_def)
  moreover from d have "d = manhattan s (cx, cy)" by (simp add: manhattan_def)
  ultimately show "d \<in> ?L" by force
qed

text \<open>
  Claim C8: on a well-formed grid \<^verbatim>\<open>ManhattanMaxHeuristic\<close> returns the greatest
  Manhattan distance from the position of the state to a cell whose coin the state has
  not collected, and 0 when there is no such cell; the value is never negative. (The
  state need not be within the boundaries for this.)
\<close>

theorem ManhattanMaxHeuristic_value:
  assumes "wf_grid gr"
  shows "ManhattanMaxHeuristic gr (Some s) =
           Inr (Max (insert 0
                  {\<bar>pos_x s - cx\<bar> + \<bar>pos_y s - cy\<bar> | cx cy k.
                     is_within_boundaries gr cx cy \<and> cell_at gr cx cy = Coin k
                     \<and> k \<notin> coins_collected s}))
       \<and> (\<exists>v. ManhattanMaxHeuristic gr (Some s) = Inr v \<and> 0 \<le> v)"
proof -
  let ?D = "{\<bar>pos_x s - cx\<bar> + \<bar>pos_y s - cy\<bar> | cx cy k.
               is_within_boundaries gr cx cy \<and> cell_at gr cx cy = Coin k
               \<and> k \<notin> coins_collected s}"
  have "ManhattanMaxHeuristic gr (Some s) =
          Inr (fold max (map (manhattan s) (filter (uncollected gr s) (coin_cells gr))) 0)"
    by (simp add: ManhattanMaxHeuristic_def get_coin_locations_wf [OF assms]
          manhattan_max_loop_fold [OF assms])
  then have v: "ManhattanMaxHeuristic gr (Some s) = Inr (Max (insert 0 ?D))"
    by (simp only: fold_max_Max uncollected_distances)
  have "finite ?D" using uncollected_distances [of s gr, symmetric] by (metis List.finite_set)
  then have "0 \<le> Max (insert 0 ?D)" by simp
  with v show ?thesis by simp
qed

theorem ManhattanMaxHeuristic_value_witness:
  "wf_grid corridor
   \<and> ManhattanMaxHeuristic corridor (Some \<lparr>pos_x = 0, pos_y = 0, coins_collected = {}\<rparr>) = Inr 2
   \<and> Max (insert 0
        {\<bar>0 - cx\<bar> + \<bar>0 - cy\<bar> | cx cy k.
           is_within_boundaries corridor cx cy \<and> cell_at corridor cx cy = Coin k
           \<and> k \<notin> {}}) = 2"
proof -
  let ?s = "\<lparr>pos_x = 0, pos_y = 0, coins_collected = {}\<rparr>"
  have run: "ManhattanMaxHeuristic corridor (Some ?s) = Inr 2"
    by code_simp
  from ManhattanMaxHeuristic_value [OF wf_corridor, of ?s] run wf_corridor
  show ?thesis by simp
qed

lemma nearest_coin_loop_all_collected:
  assumes "wf_grid gr" and "set cs \<subseteq> set (coin_cells gr)"
    and "\<forall>c \<in> set cs. \<not> uncollected gr s c"
  shows "nearest_coin_loop gr s cs acc = Inr acc"
  using assms(2,3)
proof (induction cs)
  case Nil
  show ?case by simp
next
  case (Cons c cs)
  obtain cx cy where c: "c = (cx, cy)" by (cases c)
  obtain dist c1_x c1_y where acc: "acc = (dist, c1_x, c1_y)" by (cases acc)
  from Cons.prems c have "(cx, cy) \<in> set (coin_cells gr)" "\<not> uncollected gr s (cx, cy)"
    by simp_all
  moreover from Cons have "nearest_coin_loop gr s cs acc = Inr acc" by simp
  ultimately show ?case
    using c acc by (simp add: has_collected_coin_at_location_wf [OF assms(1)])
qed

lemma not_collected_loop_all_collected:
  assumes "wf_grid gr" and "set cs \<subseteq> set (coin_cells gr)"
    and "\<forall>c \<in> set cs. \<not> uncollected gr s c"
  shows "not_collected_loop gr s cs acc = Inr acc"
  using assms(2,3)
proof (induction cs)
  case Nil
  show ?case by simp
next
  case (Cons c cs)
  obtain cx cy where c: "c = (cx, cy)" by (cases c)
  from Cons.prems c have "(cx, cy) \<in> set (coin_cells gr)" "\<not> uncollected gr s (cx, cy)"
    by simp_all
  moreover from Cons have "not_collected_loop gr s cs acc = Inr acc" by simp
  ultimately show ?case
    using c by (simp add: has_collected_coin_at_location_wf [OF assms(1)])
qed

text \<open>
  Claim C10: for a state that has collected the coin of every coin cell,
  \<^verbatim>\<open>ManhattanOrderedSumHeuristic\<close> returns the Manhattan distance from the position of
  the state to the cell \<open>(0, 0)\<close>, the initial value of the nearest coin's coordinates.
\<close>

theorem ManhattanOrderedSumHeuristic_all_collected:
  assumes "wf_grid gr"
    and "\<forall>cx cy k. is_within_boundaries gr cx cy \<and> cell_at gr cx cy = Coin k
           \<longrightarrow> k \<in> coins_collected s"
  shows "ManhattanOrderedSumHeuristic gr (Some s) = Inr (\<bar>pos_x s\<bar> + \<bar>pos_y s\<bar>)"
proof -
  from assms(2) have all: "\<forall>c \<in> set (coin_cells gr). \<not> uncollected gr s c"
    by (auto simp: uncollected_def coin_at_def)
  show ?thesis
    by (simp add: ManhattanOrderedSumHeuristic_def get_coin_locations_wf [OF assms(1)]
          nearest_coin_loop_all_collected [OF assms(1) subset_refl all]
          not_collected_loop_all_collected [OF assms(1) subset_refl all])
qed

theorem ManhattanOrderedSumHeuristic_all_collected_witness:
  "wf_grid corridor
   \<and> \<not> (\<exists>cx cy k. is_within_boundaries corridor cx cy \<and> cell_at corridor cx cy = Coin k
             \<and> k \<notin> coins_collected \<lparr>pos_x = 2, pos_y = 0, coins_collected = {0}\<rparr>)
   \<and> ManhattanOrderedSumHeuristic corridor
         (Some \<lparr>pos_x = 2, pos_y = 0, coins_collected = {0}\<rparr>) = Inr 2"
proof -
  let ?s = "\<lparr>pos_x = 2, pos_y = 0, coins_collected = {0}\<rparr>"
  have all: "\<forall>cx cy k. is_within_boundaries corridor cx cy \<and> cell_at corridor cx cy = Coin k
               \<longrightarrow> k \<in> coins_collected ?s"
  proof (intro allI impI)
    fix cx cy k
    assume a: "is_within_boundaries corridor cx cy \<and> cell_at corridor cx cy = Coin k"
    then have "cy = 0" and "cx = 0 \<or> cx = 1 \<or> cx = 2"
      by (auto simp: is_within_boundaries_def corridor_def)
    with a show "k \<in> coins_collected ?s"
      by (auto simp: cell_at_def corridor_def AGENT_SYMBOL_def EMPTY_SYMBOL_def)
  qed
  from ManhattanOrderedSumHeuristic_all_collected [OF wf_corridor all] wf_corridor all
  show ?thesis by simp
qed

section \<open>A run on an example grid\<close>

lemma iteration_ctl_eq:
  "\<not> isl (astar_iteration gr heuristic (None :: int option) num_coins v) \<Longrightarrow>
   astar_iteration gr heuristic (None :: int option) num_coins v
     = Inr (iteration_ctl gr heuristic num_coins v)"
  by (cases "astar_iteration gr heuristic (None :: int option) num_coins v")
     (simp_all add: iteration_ctl_def)

lemma continue_vars_of: "is_continue c \<Longrightarrow> c = Continue (vars_of c)"
  by (cases c) (simp_all add: is_continue_def vars_of_def)

lemma break_vars_of: "\<not> is_continue c \<Longrightarrow> \<exists>v. c = Break v"
  by (cases c) (simp_all add: is_continue_def)

lemma wf_field: "wf_grid field"
  by (simp add: wf_grid_def field_def)

lemma field_init:
  "astar_init field (ManhattanMaxHeuristic field) = Inr (1, field_start)"
proof -
  have "get_initial_state field = Inr (Some \<lparr>pos_x = 0, pos_y = 0, coins_collected = {}\<rparr>)"
    by code_simp
  moreover have "get_coin_locations field = Inr [(2, 0)]" by code_simp
  moreover have "ManhattanMaxHeuristic field (Some \<lparr>pos_x = 0, pos_y = 0, coins_collected = {}\<rparr>) = Inr 2"
    by code_simp
  ultimately show ?thesis
    by (simp add: astar_init_def SearchNode_init_def field_start_def field_root_def)
qed

lemma field_returns:
  "\<not> isl (astar_iteration field (ManhattanMaxHeuristic field) (None :: int option) 1 field_start)"
  "\<not> isl (astar_iteration field (ManhattanMaxHeuristic field) (None :: int option) 1
            (vars_of field_ctl1))"
  "\<not> isl (astar_iteration field (ManhattanMaxHeuristic field) (None :: int option) 1
            (vars_of field_ctl2))"
  by code_simp+

lemma field_continues: "is_continue field_ctl1" "is_continue field_ctl2" "\<not> is_continue field_ctl3"
  by code_simp+

lemma field_open_lists:
  "open_list field_start = [field_root]"
  "open_list (vars_of field_ctl1) = [field_mid, field_shallow]"
  "open_list (vars_of field_ctl2) = [field_goal, field_deep, field_shallow]"
  "open_list (vars_of field_ctl3) = [field_shallow, field_deep]"
  by code_simp+

lemma field_reachable:
  "reachable field (ManhattanMaxHeuristic field) (None :: int option) 1 (Continue field_start)"
  "reachable field (ManhattanMaxHeuristic field) (None :: int option) 1 (Continue (vars_of field_ctl1))"
  "reachable field (ManhattanMaxHeuristic field) (None :: int option) 1 (Continue (vars_of field_ctl2))"
  "reachable field (ManhattanMaxHeuristic field) (None :: int option) 1 field_ctl3"
proof -
  show 0: "reachable field (ManhattanMaxHeuristic field) (None :: int option) 1 (Continue field_start)"
    by (rule reachable.start) (rule field_init)
  have "reachable field (ManhattanMaxHeuristic field) (None :: int option) 1 field_ctl1"
    unfolding field_ctl1_def
    by (rule reachable.iteration [OF 0 _ iteration_ctl_eq [OF field_returns(1)]])
       (simp add: field_open_lists)
  with continue_vars_of [OF field_continues(1)]
  show 1: "reachable field (ManhattanMaxHeuristic field) (None :: int option) 1
      (Continue (vars_of field_ctl1))" by simp
  have "reachable field (ManhattanMaxHeuristic field) (None :: int option) 1 field_ctl2"
    unfolding field_ctl2_def
    by (rule reachable.iteration [OF 1 _ iteration_ctl_eq [OF field_returns(2)]])
       (simp add: field_open_lists)
  with continue_vars_of [OF field_continues(2)]
  show 2: "reachable field (ManhattanMaxHeuristic field) (None :: int option) 1
      (Continue (vars_of field_ctl2))" by simp
  show "reachable field (ManhattanMaxHeuristic field) (None :: int option) 1 field_ctl3"
    unfolding field_ctl3_def
    by (rule reachable.iteration [OF 2 _ iteration_ctl_eq [OF field_returns(3)]])
       (simp add: field_open_lists)
qed

text \<open>The first two iterations on the square.\<close>

lemma quad_init: "astar_init quad (BlindHeuristic quad) = Inr (1, quad_start)"
proof -
  have "get_initial_state quad = Inr (Some \<lparr>pos_x = 0, pos_y = 0, coins_collected = {}\<rparr>)"
    by code_simp
  moreover have "get_coin_locations quad = Inr [(1, 1)]" by code_simp
  ultimately show ?thesis
    by (simp add: astar_init_def SearchNode_init_def BlindHeuristic_def quad_start_def
        quad_root_def)
qed

lemma quad_returns:
  "\<not> isl (astar_iteration quad (BlindHeuristic quad) (None :: int option) 1 quad_start)"
  "\<not> isl (astar_iteration quad (BlindHeuristic quad) (None :: int option) 1
            (vars_of quad_ctl1))"
  by code_simp+

lemma quad_continues: "is_continue quad_ctl1" "is_continue quad_ctl2"
  by code_simp+

lemma quad_open_lists:
  "open_list quad_start = [quad_root]"
  "open_list (vars_of quad_ctl1) = [quad_down, quad_right]"
  "open_list (vars_of quad_ctl2) = [quad_right, quad_first]"
  by code_simp+

lemma quad_tables:
  "expanded (vars_of quad_ctl2)
     = {\<lparr>pos_x = 0, pos_y = 0, coins_collected = {}\<rparr>,
        \<lparr>pos_x = 0, pos_y = 1, coins_collected = {}\<rparr>}"
  "visited_table (vars_of quad_ctl2) \<lparr>pos_x = 1, pos_y = 1, coins_collected = {0}\<rparr> = Some 0"
  "visited (result (vars_of quad_ctl2)) = 3"
  "expansions (result (vars_of quad_ctl2)) = 2"
  by code_simp+

lemma quad_reachable:
  "reachable quad (BlindHeuristic quad) (None :: int option) 1 (Continue (vars_of quad_ctl2))"
proof -
  have 0: "reachable quad (BlindHeuristic quad) (None :: int option) 1 (Continue quad_start)"
    by (rule reachable.start) (rule quad_init)
  have "reachable quad (BlindHeuristic quad) (None :: int option) 1 quad_ctl1"
    unfolding quad_ctl1_def
    by (rule reachable.iteration [OF 0 _ iteration_ctl_eq [OF quad_returns(1)]])
       (simp add: quad_open_lists)
  with continue_vars_of [OF quad_continues(1)]
  have 1: "reachable quad (BlindHeuristic quad) (None :: int option) 1
      (Continue (vars_of quad_ctl1))" by simp
  have "reachable quad (BlindHeuristic quad) (None :: int option) 1 quad_ctl2"
    unfolding quad_ctl2_def
    by (rule reachable.iteration [OF 1 _ iteration_ctl_eq [OF quad_returns(2)]])
       (simp add: quad_open_lists)
  with continue_vars_of [OF quad_continues(2)] show ?thesis by simp
qed

lemma quad_pop: "heappop (open_list (vars_of quad_ctl2)) = Inr (quad_right, [quad_first])"
  by code_simp

lemma quad_successors:
  "get_successor_states quad (state quad_right)
     = Inr [\<lparr>pos_x = 0, pos_y = 0, coins_collected = {}\<rparr>,
            \<lparr>pos_x = 1, pos_y = 1, coins_collected = {0}\<rparr>]"
  by code_simp

section \<open>The heap operations keep the items\<close>

declare siftdown_loop.simps [simp del] siftup_loop.simps [simp del]

lemma mset_update_swap:
  assumes "i < length xs" and "j < length xs" and "i \<noteq> j"
  shows "mset (xs[i := xs ! j, j := x]) = mset (xs[i := x])"
  using assms by (simp add: mset_update nth_list_update)

lemma length_siftdown_loop [simp]:
  "length (siftdown_loop heap newitem startpos pos) = length heap"
proof (induction heap newitem startpos pos rule: siftdown_loop.induct)
  case (1 heap newitem startpos pos)
  then show ?case by (subst siftdown_loop.simps) simp
qed

lemma mset_siftdown_loop:
  "pos < length heap \<Longrightarrow>
   mset (siftdown_loop heap newitem startpos pos) = mset (heap[pos := newitem])"
proof (induction heap newitem startpos pos rule: siftdown_loop.induct)
  case (1 heap newitem startpos pos)
  let ?pp = "(pos - 1) div 2"
  show ?case
  proof (cases "pos > startpos \<and> SearchNode_lt newitem (heap ! ?pp)")
    case True
    then have pp: "?pp < pos" by arith
    with "1.prems" have "?pp < length (heap[pos := heap ! ?pp])" by simp
    with "1.IH" True
    have "mset (siftdown_loop (heap[pos := heap ! ?pp]) newitem startpos ?pp)
            = mset (heap[pos := heap ! ?pp, ?pp := newitem])"
      by simp
    also have "\<dots> = mset (heap[pos := newitem])"
      using "1.prems" pp by (intro mset_update_swap) simp_all
    finally show ?thesis using True by (subst siftdown_loop.simps) simp
  next
    case False
    then show ?thesis by (subst siftdown_loop.simps) auto
  qed
qed

lemma mset_siftdown: "pos < length heap \<Longrightarrow> mset (siftdown heap startpos pos) = mset heap"
  by (simp add: siftdown_def mset_siftdown_loop)

lemma length_siftdown [simp]: "length (siftdown heap startpos pos) = length heap"
  by (simp add: siftdown_def)

lemma siftup_loop_props:
  assumes "pos < endpos" and "endpos \<le> length heap"
    and "siftup_loop heap endpos pos = (heap', leaf)"
  shows "leaf < endpos \<and> pos \<le> leaf \<and> length heap' = length heap
         \<and> mset (heap'[leaf := x]) = mset (heap[pos := x])"
  using assms
proof (induction heap endpos pos arbitrary: heap' leaf rule: siftup_loop.induct)
  case (1 heap endpos pos)
  show ?case
  proof (cases "2 * pos + 1 < endpos")
    case False
    with "1.prems" show ?thesis by (simp add: siftup_loop.simps [of heap endpos pos])
  next
    case child: True
    define c where "c = (if 2 * pos + 2 < endpos
        \<and> \<not> SearchNode_lt (heap ! (2 * pos + 1)) (heap ! (2 * pos + 2))
      then 2 * pos + 2 else 2 * pos + 1)"
    have c: "c < endpos" "pos < c" using child by (auto simp: c_def)
    from child "1.prems"(3) have rec: "siftup_loop (heap[pos := heap ! c]) endpos c = (heap', leaf)"
      by (auto simp: siftup_loop.simps [of heap endpos pos] c_def split: if_splits)
    have len: "endpos \<le> length (heap[pos := heap ! c])" using "1.prems" by simp
    have IH: "leaf < endpos \<and> c \<le> leaf \<and> length heap' = length (heap[pos := heap ! c])
         \<and> mset (heap'[leaf := x]) = mset (heap[pos := heap ! c, c := x])"
    proof (cases "2 * pos + 2 < endpos
        \<and> \<not> SearchNode_lt (heap ! (2 * pos + 1)) (heap ! (2 * pos + 2))")
      case True
      then have ceq: "c = 2 * pos + 2" by (simp add: c_def)
      from "1.IH"(1) [OF child True, of heap' leaf] c rec len show ?thesis
        unfolding ceq by simp
    next
      case False
      then have ceq: "c = 2 * pos + 1" by (auto simp: c_def)
      from "1.IH"(2) [OF child False, of heap' leaf] c rec len show ?thesis
        unfolding ceq by simp
    qed
    moreover have "mset (heap[pos := heap ! c, c := x]) = mset (heap[pos := x])"
      using c "1.prems" by (intro mset_update_swap) simp_all
    ultimately show ?thesis using c by simp
  qed
qed

lemma mset_siftup:
  assumes "pos < length heap"
  shows "mset (siftup heap pos) = mset heap"
proof -
  obtain heap' leaf where r: "siftup_loop heap (length heap) pos = (heap', leaf)"
    by (cases "siftup_loop heap (length heap) pos")
  from siftup_loop_props [OF assms order_refl r, of "heap ! pos"]
  have "leaf < length heap" "length heap' = length heap"
    "mset (heap'[leaf := heap ! pos]) = mset heap"
    by simp_all
  then show ?thesis by (simp add: siftup_def r mset_siftdown)
qed

lemma mset_heappush: "mset (heappush heap item) = add_mset item (mset heap)"
  by (simp add: heappush_def mset_siftdown)

lemma mset_heappop:
  assumes "heappop heap = Inr (node, rest)"
  shows "mset heap = add_mset node (mset rest)"
proof (cases heap rule: rev_cases)
  case Nil
  with assms show ?thesis by (simp add: heappop_def)
next
  case (snoc ys y)
  show ?thesis
  proof (cases ys)
    case Nil
    with snoc assms show ?thesis by (simp add: heappop_def)
  next
    case (Cons z zs)
    with snoc assms have n: "node = z" and r: "rest = siftup (y # zs) 0"
      by (simp_all add: heappop_def)
    have "mset rest = mset (y # zs)" unfolding r by (rule mset_siftup) simp
    with n snoc Cons show ?thesis by simp
  qed
qed

lemma heappop_nonempty: "heap \<noteq> [] \<Longrightarrow> \<exists>node rest. heappop heap = Inr (node, rest)"
  by (simp add: heappop_def)

lemma heappop_single: "heappop [node] = Inr (node, [])"
  by (simp add: heappop_def)

section \<open>The loop over the successors\<close>

lemma successors_loop_Cons_cases:
  assumes "successors_loop h node (s # rest) v = Inr v'"
  obtains (skip) "s \<in> expanded v" "successors_loop h node rest v = Inr v'"
  | (first) hv where "s \<notin> expanded v" "visited_table v s = None" "h (Some s) = Inr hv"
      "successors_loop h node rest
         (v\<lparr>result := (result v)\<lparr>visited := visited (result v) + 1\<rparr>,
            visited_table := (visited_table v)(s \<mapsto> hv),
            open_list := heappush (open_list v) (MkNode s (Some node) hv (g_value node + 1))\<rparr>)
       = Inr v'"
  | (cached) hv where "s \<notin> expanded v" "visited_table v s = Some hv"
      "successors_loop h node rest
         (v\<lparr>open_list := heappush (open_list v) (MkNode s (Some node) hv (g_value node + 1))\<rparr>)
       = Inr v'"
proof (cases "s \<in> expanded v")
  case True
  with assms skip show ?thesis by simp
next
  case False
  show ?thesis
  proof (cases "visited_table v s")
    case None
    show ?thesis
    proof (cases "h (Some s)")
      case (Inl e)
      with assms False None show ?thesis by simp
    next
      case (Inr hv)
      with assms False None first [of hv] show ?thesis
        by (simp add: SearchNode_init_def)
    qed
  next
    case (Some hv)
    with assms False cached [of hv] show ?thesis
      by (simp add: SearchNode_init_def)
  qed
qed

lemma successors_loop_frame:
  "successors_loop h node succs v = Inr v' \<Longrightarrow>
   expanded v' = expanded v \<and> frames v' = frames v
   \<and> expansions (result v') = expansions (result v) \<and> plan (result v') = plan (result v)"
proof (induction succs arbitrary: v)
  case Nil
  then show ?case by simp
next
  case (Cons s rest)
  from Cons.prems show ?case
    by (cases rule: successors_loop_Cons_cases) (auto dest: Cons.IH)
qed

lemma successors_loop_visited_mono:
  "successors_loop h node succs v = Inr v' \<Longrightarrow> visited_table v \<subseteq>\<^sub>m visited_table v'"
proof (induction succs arbitrary: v)
  case Nil
  then show ?case by simp
next
  case (Cons s rest)
  from Cons.prems show ?case
  proof (cases rule: successors_loop_Cons_cases)
    case skip
    then show ?thesis by (auto dest: Cons.IH)
  next
    case (first hv)
    from Cons.IH [OF first(4)] first(2) show ?thesis
      by (auto simp: map_le_def dom_def split: if_splits)
  next
    case (cached hv)
    from Cons.IH [OF cached(3)] show ?thesis by simp
  qed
qed

lemma successors_loop_open_list:
  "successors_loop h node succs v = Inr v' \<Longrightarrow>
   mset (open_list v') =
     mset (open_list v) + mset (map (push_node node v') (filter (\<lambda>s. s \<notin> expanded v) succs))"
proof (induction succs arbitrary: v)
  case Nil
  then show ?case by simp
next
  case (Cons s rest)
  from Cons.prems show ?case
  proof (cases rule: successors_loop_Cons_cases)
    case skip
    then show ?thesis by (auto dest: Cons.IH)
  next
    case (first hv)
    from successors_loop_visited_mono [OF first(4)] have "visited_table v' s = Some hv"
      by (auto simp: map_le_def)
    with Cons.IH [OF first(4)] first(1) show ?thesis
      by (simp add: mset_heappush push_node_def)
  next
    case (cached hv)
    from successors_loop_visited_mono [OF cached(3)] cached(2) have "visited_table v' s = Some hv"
      by (auto simp: map_le_def dom_def)
    with Cons.IH [OF cached(3)] cached(1) show ?thesis
      by (simp add: mset_heappush push_node_def)
  qed
qed

lemma successors_loop_visited_table:
  "successors_loop h node succs v = Inr v' \<Longrightarrow>
   visited_table v' s =
     (if visited_table v s = None \<and> s \<in> set succs \<and> s \<notin> expanded v
      then (case h (Some s) of Inr hv \<Rightarrow> Some hv | Inl e \<Rightarrow> None)
      else visited_table v s)
   \<and> (visited_table v s = None \<and> s \<in> set succs \<and> s \<notin> expanded v \<longrightarrow> \<not> isl (h (Some s)))"
proof (induction succs arbitrary: v)
  case Nil
  then show ?case by simp
next
  case (Cons t rest)
  from Cons.prems show ?case
  proof (cases rule: successors_loop_Cons_cases)
    case skip
    with Cons.IH [OF skip(2)] show ?thesis by auto
  next
    case (first hv)
    with Cons.IH [OF first(4)] show ?thesis by (auto split: if_splits)
  next
    case (cached hv)
    with Cons.IH [OF cached(3)] show ?thesis by (auto split: if_splits)
  qed
qed

lemma successors_loop_heuristic_cong:
  assumes "\<forall>s. visited_table v s = None \<longrightarrow> h' (Some s) = h (Some s)"
  shows "successors_loop h' node succs v = successors_loop h node succs v"
  using assms
proof (induction succs arbitrary: v)
  case Nil
  show ?case by simp
next
  case (Cons s rest)
  show ?case
  proof (cases "s \<in> expanded v")
    case True
    with Cons show ?thesis by simp
  next
    case False
    show ?thesis
    proof (cases "visited_table v s")
      case None
      with Cons.prems have eq: "h' (Some s) = h (Some s)" by simp
      show ?thesis
      proof (cases "h (Some s)")
        case (Inl e)
        with eq False None show ?thesis by simp
      next
        case (Inr hv)
        let ?v = "v\<lparr>result := (result v)\<lparr>visited := visited (result v) + 1\<rparr>,
                    visited_table := (visited_table v)(s \<mapsto> hv),
                    open_list := heappush (open_list v) (MkNode s (Some node) hv (g_value node + 1))\<rparr>"
        from Cons.prems have "\<forall>t. visited_table ?v t = None \<longrightarrow> h' (Some t) = h (Some t)"
          by simp
        from Cons.IH [OF this] eq Inr False None show ?thesis
          by (simp add: SearchNode_init_def)
      qed
    next
      case (Some hv)
      let ?v = "v\<lparr>open_list := heappush (open_list v) (MkNode s (Some node) hv (g_value node + 1))\<rparr>"
      from Cons.prems have "\<forall>t. visited_table ?v t = None \<longrightarrow> h' (Some t) = h (Some t)"
        by simp
      from Cons.IH [OF this] Some False show ?thesis
        by (simp add: SearchNode_init_def)
    qed
  qed
qed

lemma successors_loop_visited_count:
  "successors_loop h node succs v = Inr v' \<Longrightarrow>
   visited (result v') =
     visited (result v) + card {s \<in> set succs. s \<notin> expanded v \<and> visited_table v s = None}"
proof (induction succs arbitrary: v)
  case Nil
  then show ?case by simp
next
  case (Cons s rest)
  from Cons.prems show ?case
  proof (cases rule: successors_loop_Cons_cases)
    case skip
    then have "{t \<in> set (s # rest). t \<notin> expanded v \<and> visited_table v t = None}
        = {t \<in> set rest. t \<notin> expanded v \<and> visited_table v t = None}" by auto
    with Cons.IH [OF skip(2)] show ?thesis by simp
  next
    case (first hv)
    let ?A = "{t \<in> set rest. t \<notin> expanded v \<and> visited_table v t = None}"
    have e1: "{t \<in> set (s # rest). t \<notin> expanded v \<and> visited_table v t = None}
        = insert s (?A - {s})"
      using first(1,2) by auto
    have e2: "{t \<in> set rest. t \<notin> expanded v \<and> ((visited_table v)(s \<mapsto> hv)) t = None}
        = ?A - {s}"
      by auto
    have c: "card (insert s (?A - {s})) = Suc (card (?A - {s}))"
      by (rule card_insert_disjoint) simp_all
    from Cons.IH [OF first(4)]
    have "visited (result v') = visited (result v) + 1 + card (?A - {s})"
      using e2 by simp
    then show ?thesis unfolding e1 c by simp
  next
    case (cached hv)
    then have "{t \<in> set (s # rest). t \<notin> expanded v \<and> visited_table v t = None}
        = {t \<in> set rest. t \<notin> expanded v \<and> visited_table v t = None}" by auto
    with Cons.IH [OF cached(3)] show ?thesis by simp
  qed
qed

text \<open>
  The loop returns when the heuristic returns for every successor it is called with:
  those not expanded and not in the table \<^verbatim>\<open>visited\<close>.
\<close>

lemma successors_loop_returns:
  assumes "\<forall>s \<in> set succs. s \<notin> expanded v \<and> visited_table v s = None \<longrightarrow> \<not> isl (h (Some s))"
  shows "\<exists>v'. successors_loop h node succs v = Inr v'"
  using assms
proof (induction succs arbitrary: v)
  case Nil
  show ?case by simp
next
  case (Cons s rest)
  show ?case
  proof (cases "s \<in> expanded v")
    case True
    from Cons.prems have "\<exists>v'. successors_loop h node rest v = Inr v'"
      by (intro Cons.IH) simp
    with True show ?thesis by simp
  next
    case unexp: False
    show ?thesis
    proof (cases "visited_table v s")
      case None
      with unexp Cons.prems obtain hv where hv: "h (Some s) = Inr hv"
        by (cases "h (Some s)") auto
      let ?v = "v\<lparr>result := (result v)\<lparr>visited := visited (result v) + 1\<rparr>,
            visited_table := (visited_table v)(s \<mapsto> hv),
            open_list := heappush (open_list v) (MkNode s (Some node) hv (g_value node + 1))\<rparr>"
      from Cons.prems have "\<exists>v'. successors_loop h node rest ?v = Inr v'"
        by (intro Cons.IH) simp
      with unexp None hv show ?thesis by (simp add: SearchNode_init_def)
    next
      case (Some hv)
      let ?v = "v\<lparr>open_list :=
            heappush (open_list v) (MkNode s (Some node) hv (g_value node + 1))\<rparr>"
      from Cons.prems have "\<exists>v'. successors_loop h node rest ?v = Inr v'"
        by (intro Cons.IH) simp
      with unexp Some show ?thesis by (simp add: SearchNode_init_def)
    qed
  qed
qed

section \<open>One iteration of the search loop\<close>

lemma time_sleep_returns:
  "(\<forall>seconds. rate = Some seconds \<longrightarrow> time_sleep seconds = Inr ())
     \<longleftrightarrow> \<not> (\<exists>seconds. rate = Some seconds \<and> seconds < 0)"
  by (auto simp: time_sleep_def)

lemma astar_iteration_pop:
  assumes "heappop (open_list v) = Inr (node, rest)"
  shows "astar_iteration gr h rate n v =
     (if state node \<in> expanded v then Inr (Continue (v\<lparr>open_list := rest\<rparr>))
      else if card (coins_collected (state node)) = n then
        Inr (Break (v\<lparr>open_list := rest,
                      result := (result v)\<lparr>expansions := expansions (result v) + 1,
                                            plan := Some (extract_plan node)\<rparr>,
                      frames := frames v + 1\<rparr>))
      else
        (case get_successor_states gr (state node) of
           Inl e \<Rightarrow> Inl e
         | Inr successors \<Rightarrow>
             (case successors_loop h node successors
                     (v\<lparr>open_list := rest,
                        result := (result v)\<lparr>expansions := expansions (result v) + 1\<rparr>\<rparr>) of
                Inl e \<Rightarrow> Inl e
              | Inr v' \<Rightarrow>
                  if \<exists>seconds. rate = Some seconds \<and> seconds < 0 then Inl ValueError
                  else
                    Inr (Continue
                      (v'\<lparr>frames := frames v' + (if rate \<noteq> None then 1 else 0),
                          expanded := insert (state node) (expanded v')\<rparr>)))))"
proof (cases rate)
  case None
  with assms show ?thesis by (simp add: astar_iteration_def split: sum.splits)
next
  case (Some seconds)
  with assms show ?thesis by (simp add: astar_iteration_def time_sleep_def split: sum.splits)
qed

lemma astar_iteration_cases:
  assumes "open_list v \<noteq> []" and "astar_iteration gr h rate n v = Inr c"
  obtains (skip) node rest where "heappop (open_list v) = Inr (node, rest)"
      "state node \<in> expanded v" "c = Continue (v\<lparr>open_list := rest\<rparr>)"
  | (goal) node rest where "heappop (open_list v) = Inr (node, rest)"
      "state node \<notin> expanded v" "card (coins_collected (state node)) = n"
      "c = Break (v\<lparr>open_list := rest,
                      result := (result v)\<lparr>expansions := expansions (result v) + 1,
                                            plan := Some (extract_plan node)\<rparr>,
                      frames := frames v + 1\<rparr>)"
  | (expand) node rest successors v' where "heappop (open_list v) = Inr (node, rest)"
      "state node \<notin> expanded v" "card (coins_collected (state node)) \<noteq> n"
      "get_successor_states gr (state node) = Inr successors"
      "successors_loop h node successors
         (v\<lparr>open_list := rest,
            result := (result v)\<lparr>expansions := expansions (result v) + 1\<rparr>\<rparr>) = Inr v'"
      "c = Continue (v'\<lparr>frames := frames v' + (if rate \<noteq> None then 1 else 0),
                        expanded := insert (state node) (expanded v')\<rparr>)"
      "\<not> (\<exists>seconds. rate = Some seconds \<and> seconds < 0)"
proof -
  from assms(1) obtain node rest where pop: "heappop (open_list v) = Inr (node, rest)"
    using heappop_nonempty by blast
  note it = assms(2) [unfolded astar_iteration_pop [OF pop]]
  show ?thesis
  proof (cases "state node \<in> expanded v")
    case True
    with it skip [OF pop] show ?thesis by simp
  next
    case unexp: False
    show ?thesis
    proof (cases "card (coins_collected (state node)) = n")
      case True
      with it unexp goal [OF pop] show ?thesis by simp
    next
      case False
      with it unexp obtain successors where s: "get_successor_states gr (state node) = Inr successors"
        by (cases "get_successor_states gr (state node)") simp_all
      with it unexp False obtain v' where
        "successors_loop h node successors
           (v\<lparr>open_list := rest,
              result := (result v)\<lparr>expansions := expansions (result v) + 1\<rparr>\<rparr>) = Inr v'"
        by (cases "successors_loop h node successors
           (v\<lparr>open_list := rest,
              result := (result v)\<lparr>expansions := expansions (result v) + 1\<rparr>\<rparr>)") simp_all
      with it unexp False s expand [OF pop] show ?thesis by (simp split: if_splits)
    qed
  qed
qed

lemma heappop_member:
  assumes "heappop heap = Inr (node, rest)"
  shows "node \<in> set heap" and "set rest \<subseteq> set heap"
proof -
  from mset_heappop [OF assms] have "set_mset (mset heap) = insert node (set_mset (mset rest))"
    by simp
  then show "node \<in> set heap" and "set rest \<subseteq> set heap" by auto
qed

lemma astar_iteration_heuristic_cong:
  assumes "\<forall>s. visited_table v s = None \<longrightarrow> h' (Some s) = h (Some s)"
  shows "astar_iteration gr h' rate n v = astar_iteration gr h rate n v"
proof (cases "heappop (open_list v)")
  case (Inl e)
  then show ?thesis by (simp add: astar_iteration_def)
next
  case (Inr p)
  obtain node rest where "p = (node, rest)" by (cases p)
  with Inr have pop: "heappop (open_list v) = Inr (node, rest)" by simp
  let ?v = "v\<lparr>open_list := rest,
            result := (result v)\<lparr>expansions := expansions (result v) + 1\<rparr>\<rparr>"
  from assms have "\<forall>s. visited_table ?v s = None \<longrightarrow> h' (Some s) = h (Some s)" by simp
  then have eq: "successors_loop h' node succs ?v = successors_loop h node succs ?v" for succs
    by (rule successors_loop_heuristic_cong)
  show ?thesis by (simp only: astar_iteration_pop [OF pop] eq)
qed

text \<open>
  Claim C7: an iteration that pops a node whose state is marked expanded changes nothing
  but the open list, which loses the node: no expansion is counted, no successor
  generated. An iteration that pops a node to expand, whose successors are \<open>succs\<close>,
  returns exactly when the heuristic returns for the successors visited for the first
  time (not expanded, not in the table) and \<^verbatim>\<open>time.sleep\<close>, if the progress is drawn,
  returns. It then goes on with the loop, having pushed one node for each successor that
  is not expanded, visited before or not, with the heuristic value the table holds for
  it afterwards: the value it held before, or, for a state visited for the first time,
  the value of the heuristic, which the table now keeps; the counter of visited states
  grows by the number of states visited for the first time. The heuristic is called
  for such states only: a heuristic that differs on visited states alone gives the same
  iteration.
\<close>

theorem astar_iteration_behaviour:
  assumes pop: "heappop (open_list v) = Inr (node, rest)"
  shows "(state node \<in> expanded v \<longrightarrow>
            astar_iteration gr heuristic rate num_coins v = Inr (Continue (v\<lparr>open_list := rest\<rparr>)))
       \<and> (\<forall>succs.
            state node \<notin> expanded v \<and> card (coins_collected (state node)) \<noteq> num_coins
            \<and> get_successor_states gr (state node) = Inr succs \<longrightarrow>
            ((\<exists>c. astar_iteration gr heuristic rate num_coins v = Inr c) \<longleftrightarrow>
               (\<forall>s. visited_table v s = None \<and> s \<in> set succs \<and> s \<notin> expanded v
                    \<longrightarrow> \<not> isl (heuristic (Some s)))
               \<and> (\<forall>seconds. rate = Some seconds \<longrightarrow> time_sleep seconds = Inr ()))
            \<and> ((\<forall>s. visited_table v s = None \<and> s \<in> set succs \<and> s \<notin> expanded v
                    \<longrightarrow> \<not> isl (heuristic (Some s)))
               \<and> (\<forall>seconds. rate = Some seconds \<longrightarrow> time_sleep seconds = Inr ()) \<longrightarrow>
               (\<exists>v'. astar_iteration gr heuristic rate num_coins v = Inr (Continue v')
                  \<and> mset (open_list v') =
                      mset rest
                      + mset (map (\<lambda>s. MkNode s (Some node) (the (visited_table v' s))
                                          (g_value node + 1))
                                (filter (\<lambda>s. s \<notin> expanded v) succs))
                  \<and> (\<forall>s. visited_table v' s =
                           (if visited_table v s = None \<and> s \<in> set succs \<and> s \<notin> expanded v
                            then (case heuristic (Some s) of Inr hv \<Rightarrow> Some hv | Inl e \<Rightarrow> None)
                            else visited_table v s))
                  \<and> visited (result v') =
                      visited (result v)
                      + card {s \<in> set succs. s \<notin> expanded v \<and> visited_table v s = None}
                  \<and> expansions (result v') = expansions (result v) + 1
                  \<and> expanded v' = insert (state node) (expanded v))))
       \<and> (\<forall>heuristic'.
            (\<forall>s. visited_table v s = None \<longrightarrow> heuristic' (Some s) = heuristic (Some s)) \<longrightarrow>
            astar_iteration gr heuristic' rate num_coins v
              = astar_iteration gr heuristic rate num_coins v)"
  unfolding time_sleep_returns
proof (intro conjI allI impI)
  assume "state node \<in> expanded v"
  then show "astar_iteration gr heuristic rate num_coins v = Inr (Continue (v\<lparr>open_list := rest\<rparr>))"
    unfolding astar_iteration_pop [OF pop] by simp
next
  fix heuristic'
  assume "\<forall>s. visited_table v s = None \<longrightarrow> heuristic' (Some s) = heuristic (Some s)"
  then show "astar_iteration gr heuristic' rate num_coins v
              = astar_iteration gr heuristic rate num_coins v"
    by (rule astar_iteration_heuristic_cong)
next
  fix succs
  assume a: "state node \<notin> expanded v \<and> card (coins_collected (state node)) \<noteq> num_coins
            \<and> get_successor_states gr (state node) = Inr succs"
  let ?v1 = "v\<lparr>open_list := rest,
            result := (result v)\<lparr>expansions := expansions (result v) + 1\<rparr>\<rparr>"
  let ?first = "\<forall>s. visited_table v s = None \<and> s \<in> set succs \<and> s \<notin> expanded v
                    \<longrightarrow> \<not> isl (heuristic (Some s))"
  let ?sleeps = "\<not> (\<exists>seconds. rate = Some seconds \<and> seconds < 0)"
  from a have it: "astar_iteration gr heuristic rate num_coins v =
      (case successors_loop heuristic node succs ?v1 of
         Inl e \<Rightarrow> Inl e
       | Inr v' \<Rightarrow>
           if \<exists>seconds. rate = Some seconds \<and> seconds < 0 then Inl ValueError
           else
             Inr (Continue
               (v'\<lparr>frames := frames v' + (if rate \<noteq> None then 1 else 0),
                   expanded := insert (state node) (expanded v')\<rparr>)))"
    unfolding astar_iteration_pop [OF pop] by simp
  show "(\<exists>c. astar_iteration gr heuristic rate num_coins v = Inr c) \<longleftrightarrow> ?first \<and> ?sleeps"
  proof
    assume "\<exists>c. astar_iteration gr heuristic rate num_coins v = Inr c"
    then obtain c where c: "astar_iteration gr heuristic rate num_coins v = Inr c" ..
    then obtain v2 where loop: "successors_loop heuristic node succs ?v1 = Inr v2"
      unfolding it by (cases "successors_loop heuristic node succs ?v1") simp_all
    from c loop have ?sleeps unfolding it by (simp split: if_splits)
    moreover have ?first
      using successors_loop_visited_table [OF loop] by simp
    ultimately show "?first \<and> ?sleeps" by (simp only: simp_thms)
  next
    assume b: "?first \<and> ?sleeps"
    then have "\<forall>s \<in> set succs. s \<notin> expanded ?v1 \<and> visited_table ?v1 s = None
        \<longrightarrow> \<not> isl (heuristic (Some s))"
      by simp
    from successors_loop_returns [OF this]
    obtain v2 where "successors_loop heuristic node succs ?v1 = Inr v2" ..
    with b show "\<exists>c. astar_iteration gr heuristic rate num_coins v = Inr c"
      unfolding it by simp
  qed
next
  fix succs
  assume a: "state node \<notin> expanded v \<and> card (coins_collected (state node)) \<noteq> num_coins
            \<and> get_successor_states gr (state node) = Inr succs"
    and b: "(\<forall>s. visited_table v s = None \<and> s \<in> set succs \<and> s \<notin> expanded v
                    \<longrightarrow> \<not> isl (heuristic (Some s)))
               \<and> \<not> (\<exists>seconds. rate = Some seconds \<and> seconds < 0)"
  let ?v1 = "v\<lparr>open_list := rest,
            result := (result v)\<lparr>expansions := expansions (result v) + 1\<rparr>\<rparr>"
  from b have "\<forall>s \<in> set succs. s \<notin> expanded ?v1 \<and> visited_table ?v1 s = None
      \<longrightarrow> \<not> isl (heuristic (Some s))"
    by simp
  from successors_loop_returns [OF this]
  obtain v2 where loop: "successors_loop heuristic node succs ?v1 = Inr v2" ..
  let ?v' = "v2\<lparr>frames := frames v2 + (if rate \<noteq> None then 1 else 0),
                        expanded := insert (state node) (expanded v2)\<rparr>"
  from a b loop have c: "astar_iteration gr heuristic rate num_coins v = Inr (Continue ?v')"
    unfolding astar_iteration_pop [OF pop] by simp
  note fr = successors_loop_frame [OF loop]
  have 1: "mset (open_list ?v') =
      mset rest
      + mset (map (\<lambda>s. MkNode s (Some node) (the (visited_table ?v' s)) (g_value node + 1))
                (filter (\<lambda>s. s \<notin> expanded v) succs))"
    using successors_loop_open_list [OF loop] by (simp add: push_node_def [abs_def])
  have 2: "\<forall>s. visited_table ?v' s =
                (if visited_table v s = None \<and> s \<in> set succs \<and> s \<notin> expanded v
                 then (case heuristic (Some s) of Inr hv \<Rightarrow> Some hv | Inl e \<Rightarrow> None)
                 else visited_table v s)"
    using successors_loop_visited_table [OF loop] by simp
  have 4: "visited (result ?v') =
      visited (result v) + card {s \<in> set succs. s \<notin> expanded v \<and> visited_table v s = None}"
    using successors_loop_visited_count [OF loop] by simp
  have 5: "expansions (result ?v') = expansions (result v) + 1"
    "expanded ?v' = insert (state node) (expanded v)"
    using fr by simp_all
  from c 1 2 4 5
  show "\<exists>v'. astar_iteration gr heuristic rate num_coins v = Inr (Continue v')
                  \<and> mset (open_list v') =
                      mset rest
                      + mset (map (\<lambda>s. MkNode s (Some node) (the (visited_table v' s))
                                          (g_value node + 1))
                                (filter (\<lambda>s. s \<notin> expanded v) succs))
                  \<and> (\<forall>s. visited_table v' s =
                           (if visited_table v s = None \<and> s \<in> set succs \<and> s \<notin> expanded v
                            then (case heuristic (Some s) of Inr hv \<Rightarrow> Some hv | Inl e \<Rightarrow> None)
                            else visited_table v s))
                  \<and> visited (result v') =
                      visited (result v)
                      + card {s \<in> set succs. s \<notin> expanded v \<and> visited_table v s = None}
                  \<and> expansions (result v') = expansions (result v) + 1
                  \<and> expanded v' = insert (state node) (expanded v)"
    by blast
qed

theorem astar_iteration_behaviour_witness:
  "heappop (open_list field_start) = Inr (field_root, [])
   \<and> state field_root \<notin> expanded field_start
   \<and> card (coins_collected (state field_root)) \<noteq> 1
   \<and> get_successor_states field (state field_root)
       = Inr [\<lparr>pos_x = 0, pos_y = 1, coins_collected = {}\<rparr>,
              \<lparr>pos_x = 1, pos_y = 0, coins_collected = {}\<rparr>]
   \<and> (\<exists>v'. astar_iteration field (ManhattanMaxHeuristic field) (None :: int option) 1 field_start
              = Inr (Continue v')
          \<and> mset (open_list v') = {#field_shallow, field_mid#}
          \<and> visited_table v' \<lparr>pos_x = 0, pos_y = 0, coins_collected = {}\<rparr> = Some 2
          \<and> visited_table v' \<lparr>pos_x = 0, pos_y = 1, coins_collected = {}\<rparr> = Some 3
          \<and> visited_table v' \<lparr>pos_x = 1, pos_y = 0, coins_collected = {}\<rparr> = Some 1
          \<and> visited (result v') = 2 \<and> expansions (result v') = 1
          \<and> expanded v' = {\<lparr>pos_x = 0, pos_y = 0, coins_collected = {}\<rparr>})
   \<and> state field_root \<in> expanded (field_start\<lparr>expanded := {state field_root}\<rparr>)
   \<and> astar_iteration field (ManhattanMaxHeuristic field) (None :: int option) 1
         (field_start\<lparr>expanded := {state field_root}\<rparr>)
       = Inr (Continue (field_start\<lparr>expanded := {state field_root}, open_list := []\<rparr>))
   \<and> field_other_heuristic (Some (state field_root))
       \<noteq> ManhattanMaxHeuristic field (Some (state field_root))
   \<and> astar_iteration field field_other_heuristic (None :: int option) 1 field_start
       = astar_iteration field (ManhattanMaxHeuristic field) (None :: int option) 1 field_start
   \<and> reachable quad (BlindHeuristic quad) (None :: int option) 1 (Continue (vars_of quad_ctl2))
   \<and> heappop (open_list (vars_of quad_ctl2)) = Inr (quad_right, [quad_first])
   \<and> get_successor_states quad (state quad_right)
       = Inr [\<lparr>pos_x = 0, pos_y = 0, coins_collected = {}\<rparr>,
              \<lparr>pos_x = 1, pos_y = 1, coins_collected = {0}\<rparr>]
   \<and> expanded (vars_of quad_ctl2)
       = {\<lparr>pos_x = 0, pos_y = 0, coins_collected = {}\<rparr>,
          \<lparr>pos_x = 0, pos_y = 1, coins_collected = {}\<rparr>}
   \<and> visited_table (vars_of quad_ctl2) \<lparr>pos_x = 1, pos_y = 1, coins_collected = {0}\<rparr> = Some 0
   \<and> visited (result (vars_of quad_ctl2)) = 3
   \<and> expansions (result (vars_of quad_ctl2)) = 2
   \<and> quad_raising (Some \<lparr>pos_x = 1, pos_y = 1, coins_collected = {0}\<rparr>) = Inl AssertionError
   \<and> (\<exists>v'. astar_iteration quad quad_raising (None :: int option) 1 (vars_of quad_ctl2)
              = Inr (Continue v')
          \<and> mset (open_list v') = {#quad_first, quad_second#}
          \<and> visited_table v' \<lparr>pos_x = 1, pos_y = 1, coins_collected = {0}\<rparr> = Some 0
          \<and> visited (result v') = 3 \<and> expansions (result v') = 3
          \<and> expanded v'
              = {\<lparr>pos_x = 1, pos_y = 0, coins_collected = {}\<rparr>,
                 \<lparr>pos_x = 0, pos_y = 0, coins_collected = {}\<rparr>,
                 \<lparr>pos_x = 0, pos_y = 1, coins_collected = {}\<rparr>})"
proof -
  let ?h = "ManhattanMaxHeuristic field"
  let ?s0 = "\<lparr>pos_x = 0, pos_y = 0, coins_collected = {}\<rparr>"
  let ?s1 = "\<lparr>pos_x = 0, pos_y = 1, coins_collected = {}\<rparr>"
  let ?s2 = "\<lparr>pos_x = 1, pos_y = 0, coins_collected = {}\<rparr>"
  let ?s3 = "\<lparr>pos_x = 1, pos_y = 1, coins_collected = {0}\<rparr>"
  let ?skip = "field_start\<lparr>expanded := {state field_root}\<rparr>"
  let ?none = "None :: int option"
  have sleeps: "\<forall>seconds. ?none = Some seconds \<longrightarrow> time_sleep seconds = Inr ()" by simp
  have pop: "heappop (open_list field_start) = Inr (field_root, [])"
    by (simp add: field_start_def heappop_single)
  have pop': "heappop (open_list ?skip) = Inr (field_root, [])"
    by (simp add: field_start_def heappop_single)
  have st: "state field_root = ?s0" by (simp add: field_root_def)
  have a: "state field_root \<notin> expanded field_start"
    "card (coins_collected (state field_root)) \<noteq> 1"
    "g_value field_root = 0"
    by (simp_all add: field_start_def field_root_def)
  have succs: "get_successor_states field (state field_root) = Inr [?s1, ?s2]"
    by code_simp
  have hv: "?h (Some ?s1) = Inr 3" "?h (Some ?s2) = Inr 1" "?h (Some ?s0) = Inr 2"
    by code_simp+
  have tab: "visited_table field_start = [?s0 \<mapsto> 2]" by (simp add: field_start_def)
  have res: "visited (result field_start) = 0" "expansions (result field_start) = 0"
    "expanded field_start = {}"
    by (simp_all add: field_start_def)
  have first: "\<forall>s. visited_table field_start s = None \<and> s \<in> set [?s1, ?s2]
      \<and> s \<notin> expanded field_start \<longrightarrow> \<not> isl (?h (Some s))"
    using hv by auto
  have unvisited: "\<forall>s. visited_table field_start s = None \<longrightarrow>
      field_other_heuristic (Some s) = ?h (Some s)"
    by (simp add: tab field_other_heuristic_def)
  have differs: "field_other_heuristic (Some (state field_root)) \<noteq> ?h (Some (state field_root))"
    by (simp add: st hv field_other_heuristic_def)
  note inst = astar_iteration_behaviour [OF pop, of field ?h ?none 1]
  note expand = inst [THEN conjunct2, THEN conjunct1, rule_format,
      OF conjI [OF a(1) conjI [OF a(2) succs]], THEN conjunct2, rule_format,
      OF conjI [OF first sleeps]]
  then obtain v' where v': "astar_iteration field ?h ?none 1 field_start = Inr (Continue v')"
    "mset (open_list v') =
       mset [] +
       mset (map (\<lambda>s. MkNode s (Some field_root) (the (visited_table v' s)) (g_value field_root + 1))
               (filter (\<lambda>s. s \<notin> expanded field_start) [?s1, ?s2]))"
    "\<forall>s. visited_table v' s =
        (if visited_table field_start s = None \<and> s \<in> set [?s1, ?s2] \<and> s \<notin> expanded field_start
         then (case ?h (Some s) of Inr hv \<Rightarrow> Some hv | Inl e \<Rightarrow> None)
         else visited_table field_start s)"
    "visited (result v') =
       visited (result field_start)
       + card {s \<in> set [?s1, ?s2]. s \<notin> expanded field_start \<and> visited_table field_start s = None}"
    "expansions (result v') = expansions (result field_start) + 1"
    "expanded v' = insert (state field_root) (expanded field_start)"
    by blast
  from v'(3) have t: "visited_table v' ?s0 = Some 2" "visited_table v' ?s1 = Some 3"
    "visited_table v' ?s2 = Some 1"
    by (simp_all add: tab res hv)
  have "{s \<in> set [?s1, ?s2]. s \<notin> expanded field_start \<and> visited_table field_start s = None}
      = {?s1, ?s2}"
    by (auto simp: tab res)
  with v'(4) have c: "visited (result v') = 2" by (simp add: res)
  from v'(2) t have o: "mset (open_list v') = {#field_shallow, field_mid#}"
    by (simp add: res a field_shallow_def field_mid_def)
  from v'(5,6) have e: "expansions (result v') = 1" "expanded v' = {?s0}"
    by (simp_all add: res st)
  have 1: "\<exists>v'. astar_iteration field ?h ?none 1 field_start = Inr (Continue v')
          \<and> mset (open_list v') = {#field_shallow, field_mid#}
          \<and> visited_table v' ?s0 = Some 2 \<and> visited_table v' ?s1 = Some 3
          \<and> visited_table v' ?s2 = Some 1
          \<and> visited (result v') = 2 \<and> expansions (result v') = 1 \<and> expanded v' = {?s0}"
    by (rule exI [of _ v']) (simp only: v'(1) o t c e simp_thms)
  have in_skip: "state field_root \<in> expanded ?skip" by simp
  have 2: "astar_iteration field ?h ?none 1 ?skip
      = Inr (Continue (?skip\<lparr>open_list := []\<rparr>))"
    by (rule astar_iteration_behaviour [OF pop', of field ?h ?none 1,
          THEN conjunct1, rule_format, OF in_skip])
  have 3: "astar_iteration field field_other_heuristic ?none 1 field_start
      = astar_iteration field ?h ?none 1 field_start"
    by (rule inst [THEN conjunct2, THEN conjunct2, rule_format, OF unvisited [rule_format]])
  let ?w = "vars_of quad_ctl2"
  note q = quad_tables
  have qst: "state quad_right = ?s2" "g_value quad_right = 1"
    by (simp_all add: quad_right_def)
  have qa: "state quad_right \<notin> expanded ?w" "card (coins_collected (state quad_right)) \<noteq> 1"
    by (simp_all add: q(1) qst)
  have raises: "quad_raising (Some ?s3) = Inl AssertionError"
    by (simp add: quad_raising_def)
  have none_first: "\<not> (visited_table ?w s = None \<and> s \<in> set [?s0, ?s3] \<and> s \<notin> expanded ?w)"
    for s
  proof
    assume h: "visited_table ?w s = None \<and> s \<in> set [?s0, ?s3] \<and> s \<notin> expanded ?w"
    then have "s = ?s0 \<or> s = ?s3" by simp
    then show False
    proof
      assume "s = ?s0"
      with h show False by (simp add: q(1))
    next
      assume "s = ?s3"
      with h show False by (simp add: q(2))
    qed
  qed
  then have qfirst: "\<forall>s. visited_table ?w s = None \<and> s \<in> set [?s0, ?s3] \<and> s \<notin> expanded ?w
      \<longrightarrow> \<not> isl (quad_raising (Some s))"
    by blast
  note qexpand = astar_iteration_behaviour [OF quad_pop, of quad quad_raising ?none 1,
      THEN conjunct2, THEN conjunct1, rule_format,
      OF conjI [OF qa(1) conjI [OF qa(2) quad_successors]], THEN conjunct2, rule_format,
      OF conjI [OF qfirst sleeps]]
  then obtain w' where w': "astar_iteration quad quad_raising ?none 1 ?w = Inr (Continue w')"
    "mset (open_list w') =
       mset [quad_first] +
       mset (map (\<lambda>s. MkNode s (Some quad_right) (the (visited_table w' s)) (g_value quad_right + 1))
               (filter (\<lambda>s. s \<notin> expanded ?w) [?s0, ?s3]))"
    "\<forall>s. visited_table w' s =
        (if visited_table ?w s = None \<and> s \<in> set [?s0, ?s3] \<and> s \<notin> expanded ?w
         then (case quad_raising (Some s) of Inr hv \<Rightarrow> Some hv | Inl e \<Rightarrow> None)
         else visited_table ?w s)"
    "visited (result w') =
       visited (result ?w)
       + card {s \<in> set [?s0, ?s3]. s \<notin> expanded ?w \<and> visited_table ?w s = None}"
    "expansions (result w') = expansions (result ?w) + 1"
    "expanded w' = insert (state quad_right) (expanded ?w)"
    by blast
  from w'(3) have qt: "visited_table w' ?s3 = Some 0" by (simp add: q(2))
  have "{s \<in> set [?s0, ?s3]. s \<notin> expanded ?w \<and> visited_table ?w s = None} = {}"
    using none_first by blast
  with w'(4) have qc: "visited (result w') = 3" by (simp add: q(3))
  have "filter (\<lambda>s. s \<notin> expanded ?w) [?s0, ?s3] = [?s3]" by (simp add: q(1))
  with w'(2) qt have qo: "mset (open_list w') = {#quad_first, quad_second#}"
    by (simp add: qst quad_second_def)
  from w'(5,6) have qe: "expansions (result w') = 3" "expanded w' = {?s2, ?s0, ?s1}"
    by (simp_all add: q(1,4) qst)
  have 4: "\<exists>v'. astar_iteration quad quad_raising ?none 1 ?w = Inr (Continue v')
          \<and> mset (open_list v') = {#quad_first, quad_second#}
          \<and> visited_table v' ?s3 = Some 0
          \<and> visited (result v') = 3 \<and> expansions (result v') = 3
          \<and> expanded v' = {?s2, ?s0, ?s1}"
    by (rule exI [of _ w']) (simp only: w'(1) qo qt qc qe simp_thms)
  from pop a(1,2) succs 1 in_skip 2 differs 3 quad_reachable quad_pop quad_successors q raises 4
  show ?thesis
    unfolding st qst by (simp only: simp_thms)
qed

section \<open>The invariant of the tables\<close>

lemma search_inv_start:
  assumes "astar_init gr h = Inr (n, v)"
  shows "search_inv (Continue v)"
proof -
  from assms obtain root where "v = \<lparr>open_list = [root], expanded = {},
      visited_table = [state root \<mapsto> h_value root],
      result = \<lparr>expansions = 0, visited = 0, plan = None\<rparr>, frames = 1\<rparr>"
    by (auto simp: astar_init_def split: sum.splits)
  then show ?thesis by (simp add: search_inv_def tables_ok_def vars_of_def)
qed

lemma search_inv_iteration:
  assumes inv: "search_inv (Continue v)" and ne: "open_list v \<noteq> []"
    and it: "astar_iteration gr h rate n v = Inr c"
  shows "search_inv c"
proof -
  from inv have t: "expanded v \<subseteq> dom (visited_table v)"
    "state ` set (open_list v) \<subseteq> dom (visited_table v)" "finite (expanded v)"
    and e: "expansions (result v) = card (expanded v)" and p: "plan (result v) = None"
    by (simp_all add: search_inv_def tables_ok_def vars_of_def)
  from ne it show ?thesis
  proof (cases rule: astar_iteration_cases)
  case (skip node rest)
  from heappop_member [OF skip(1)] t(2) have "state ` set rest \<subseteq> dom (visited_table v)"
    by auto
  with t e p show ?thesis
    unfolding skip(3) by (simp add: search_inv_def tables_ok_def vars_of_def)
next
  case (goal node rest)
  from heappop_member [OF goal(1)] t(2) have n: "state node \<in> dom (visited_table v)"
    and r: "state ` set rest \<subseteq> dom (visited_table v)" by auto
  from n goal(2) have "\<exists>nd. extract_plan node = extract_plan nd
      \<and> state nd \<notin> expanded v \<and> state nd \<in> dom (visited_table v)" by blast
  with r t e show ?thesis
    unfolding goal(4) by (simp add: search_inv_def tables_ok_def vars_of_def)
next
  case (expand node rest successors v')
  let ?v1 = "v\<lparr>open_list := rest,
            result := (result v)\<lparr>expansions := expansions (result v) + 1\<rparr>\<rparr>"
  note fr = successors_loop_frame [OF expand(5)]
  note mono = successors_loop_visited_mono [OF expand(5)]
  note ol = successors_loop_open_list [OF expand(5)]
  from mono have dom: "dom (visited_table v) \<subseteq> dom (visited_table v')"
    using map_le_implies_dom_le by fastforce
  from heappop_member [OF expand(1)] t(2) have n: "state node \<in> dom (visited_table v)"
    and r: "state ` set rest \<subseteq> dom (visited_table v)" by auto
  have pushed: "state (push_node node v' s) \<in> dom (visited_table v')"
    if "s \<in> set successors" "s \<notin> expanded v" for s
  proof (cases "visited_table v s")
    case None
    with successors_loop_visited_table [OF expand(5), of s] that
    show ?thesis by (auto simp: push_node_def split: sum.splits)
  next
    case (Some hv)
    with dom show ?thesis by (auto simp: push_node_def)
  qed
  have "set (open_list v') = set rest \<union> push_node node v' ` {s \<in> set successors. s \<notin> expanded v}"
  proof -
    from ol have "set_mset (mset (open_list v')) =
        set_mset (mset rest + mset (map (push_node node v') (filter (\<lambda>s. s \<notin> expanded v) successors)))"
      by simp
    then show ?thesis by auto
  qed
  then have o: "state ` set (open_list v') \<subseteq> dom (visited_table v')"
    using r dom pushed by blast
  from fr have ev: "expanded v' = expanded v" by simp
  have x: "insert (state node) (expanded v') \<subseteq> dom (visited_table v')"
    "finite (insert (state node) (expanded v'))"
    using ev t(1) dom n apply blast
    using ev t(3) by simp
  from fr e expand(2) t(3) have c: "expansions (result v') = card (insert (state node) (expanded v'))"
    by simp
  from fr p have "plan (result v') = None" by simp
  with o x c show ?thesis
    unfolding expand(6) by (simp add: search_inv_def tables_ok_def vars_of_def)
  qed
qed

text \<open>
  Claim C5: at every point a run of \<^verbatim>\<open>astar_search\<close> reaches, every state marked
  expanded has a value in the table \<^verbatim>\<open>visited\<close>, and so has the state of every node
  waiting in the open list, so that a state is visited before it is popped and expanded;
  and the number of expansions counted is the number of distinct states marked
  expanded, plus one, after the \<^verbatim>\<open>break\<close>, for the goal node, whose state is not marked:
  no state is counted twice.
\<close>

theorem astar_tables_invariant:
  assumes "reachable gr heuristic rate num_coins c"
  shows "expanded (vars_of c) \<subseteq> dom (visited_table (vars_of c))
       \<and> state ` set (open_list (vars_of c)) \<subseteq> dom (visited_table (vars_of c))
       \<and> finite (expanded (vars_of c))
       \<and> (case c of
            Continue v \<Rightarrow> expansions (result v) = card (expanded v) \<and> plan (result v) = None
          | Break v \<Rightarrow>
              expansions (result v) = card (expanded v) + 1
              \<and> (\<exists>node. plan (result v) = Some (extract_plan node)
                     \<and> state node \<notin> expanded v \<and> state node \<in> dom (visited_table v)))"
proof -
  from assms have "search_inv c"
  proof (induction rule: reachable.induct)
    case (start v)
    then show ?case by (rule search_inv_start)
  next
    case (iteration v c)
    from iteration.IH iteration.hyps(2,3) show ?case by (rule search_inv_iteration)
  qed
  then show ?thesis by (simp add: search_inv_def tables_ok_def)
qed

theorem astar_tables_invariant_witness:
  "reachable field (ManhattanMaxHeuristic field) (None :: int option) 1
     (Continue (vars_of field_ctl2))
   \<and> expanded (vars_of field_ctl2) \<subseteq> dom (visited_table (vars_of field_ctl2))
   \<and> state ` set (open_list (vars_of field_ctl2)) \<subseteq> dom (visited_table (vars_of field_ctl2))
   \<and> expansions (result (vars_of field_ctl2)) = card (expanded (vars_of field_ctl2))
   \<and> expansions (result (vars_of field_ctl2)) = 2
   \<and> reachable field (ManhattanMaxHeuristic field) (None :: int option) 1 field_ctl3
   \<and> \<not> is_continue field_ctl3
   \<and> expansions (result (vars_of field_ctl3)) = card (expanded (vars_of field_ctl3)) + 1
   \<and> expansions (result (vars_of field_ctl3)) = 3"
proof -
  have e: "expansions (result (vars_of field_ctl2)) = 2"
    "expansions (result (vars_of field_ctl3)) = 3"
    by code_simp+
  from astar_tables_invariant [OF field_reachable(3)]
  have 2: "expanded (vars_of field_ctl2) \<subseteq> dom (visited_table (vars_of field_ctl2))
   \<and> state ` set (open_list (vars_of field_ctl2)) \<subseteq> dom (visited_table (vars_of field_ctl2))
   \<and> expansions (result (vars_of field_ctl2)) = card (expanded (vars_of field_ctl2))"
    by (simp add: vars_of_def)
  from break_vars_of [OF field_continues(3)] obtain v3 where b: "field_ctl3 = Break v3" ..
  from astar_tables_invariant [OF field_reachable(4)]
  have 3: "expansions (result (vars_of field_ctl3)) = card (expanded (vars_of field_ctl3)) + 1"
    unfolding b by (simp add: vars_of_def)
  from 2 3 e field_reachable(3,4) field_continues(3) show ?thesis by simp
qed

text \<open>
  What \<^verbatim>\<open>astar_search\<close> ends with is such a point: one with an empty open list, or the
  end of an iteration that left the loop by \<^verbatim>\<open>break\<close>.
\<close>

lemma astar_loop_reachable:
  assumes "astar_loop gr h rate n v = Some x"
  shows "reachable gr h rate n (Continue v) \<longrightarrow>
         (\<forall>w. x = Inr w \<longrightarrow>
            (\<exists>c. reachable gr h rate n c \<and> vars_of c = w
                 \<and> (open_list w = [] \<or> \<not> is_continue c)))"
proof (rule astar_loop.raw_induct [where P = "\<lambda>gr h rate n v x.
      reachable gr h rate n (Continue v) \<longrightarrow>
         (\<forall>w. x = Inr w \<longrightarrow>
            (\<exists>c. reachable gr h rate n c \<and> vars_of c = w
                 \<and> (open_list w = [] \<or> \<not> is_continue c)))", OF _ assms])
  fix f :: "Grid \<Rightarrow> Heuristic \<Rightarrow> 'a option \<Rightarrow> nat \<Rightarrow> search_vars \<Rightarrow> (error + search_vars) option"
  fix gr h rate n v x
  assume IH: "\<And>gr h rate n v x. f gr h rate n v = Some x \<Longrightarrow>
      reachable gr h rate n (Continue v) \<longrightarrow>
         (\<forall>w. x = Inr w \<longrightarrow>
            (\<exists>c. reachable gr h rate n c \<and> vars_of c = w
                 \<and> (open_list w = [] \<or> \<not> is_continue c)))"
    and body: "(if open_list v = [] then Some (Inr v)
        else case astar_iteration gr h rate n v of
          Inl e \<Rightarrow> Some (Inl e)
        | Inr (Continue v') \<Rightarrow> f gr h rate n v'
        | Inr (Break v') \<Rightarrow> Some (Inr v')) = Some x"
  show "reachable gr h rate n (Continue v) \<longrightarrow>
         (\<forall>w. x = Inr w \<longrightarrow>
            (\<exists>c. reachable gr h rate n c \<and> vars_of c = w
                 \<and> (open_list w = [] \<or> \<not> is_continue c)))"
  proof (intro impI allI)
    fix w
    assume r: "reachable gr h rate n (Continue v)" and x: "x = Inr w"
    show "\<exists>c. reachable gr h rate n c \<and> vars_of c = w \<and> (open_list w = [] \<or> \<not> is_continue c)"
    proof (cases "open_list v = []")
      case True
      with body x have "w = v" by simp
      with r True have "reachable gr h rate n (Continue v) \<and> vars_of (Continue v) = w
          \<and> (open_list w = [] \<or> \<not> is_continue (Continue v))"
        by (simp add: vars_of_def)
      then show ?thesis ..
    next
      case False
      show ?thesis
      proof (cases "astar_iteration gr h rate n v")
        case (Inl e)
        with body False x show ?thesis by simp
      next
        case (Inr c)
        from r False Inr have rc: "reachable gr h rate n c" by (rule reachable.iteration)
        show ?thesis
        proof (cases c)
          case (Break v')
          with body False Inr x have "w = v'" by simp
          with rc Break have "reachable gr h rate n c \<and> vars_of c = w
              \<and> (open_list w = [] \<or> \<not> is_continue c)"
            by (simp add: vars_of_def is_continue_def)
          then show ?thesis ..
        next
          case (Continue v')
          with body False Inr have "f gr h rate n v' = Some x" by simp
          from IH [OF this] rc Continue x show ?thesis by simp
        qed
      qed
    qed
  qed
qed

lemma astar_run_reachable:
  assumes "astar_run gr h rate = Some (Inr w)"
  shows "\<exists>n c. reachable gr h rate n c \<and> vars_of c = w
           \<and> (open_list w = [] \<or> \<not> is_continue c)"
proof (cases "astar_init gr h")
  case (Inl e)
  with assms show ?thesis by (simp add: astar_run_def)
next
  case (Inr p)
  obtain n v where p: "p = (n, v)" by (cases p)
  with Inr assms have loop: "astar_loop gr h rate n v = Some (Inr w)"
    by (simp add: astar_run_def)
  from Inr p have "reachable gr h rate n (Continue v)" by (simp add: reachable.start)
  with astar_loop_reachable [OF loop] show ?thesis by blast
qed

section \<open>Drawing the progress does not change the outcome\<close>

lemma same_search_refl: "same_search v v"
  by (simp add: same_search_def)

lemma successors_loop_same:
  "same_search v w \<Longrightarrow>
   rel_sum (=) same_search (successors_loop h node succs v) (successors_loop h node succs w)"
proof (induction succs arbitrary: v w)
  case Nil
  then show ?case by simp
next
  case (Cons s rest)
  from Cons.prems have eq: "open_list v = open_list w" "expanded v = expanded w"
    "visited_table v = visited_table w" "result v = result w"
    by (simp_all add: same_search_def)
  show ?case
  proof (cases "s \<in> expanded v")
    case True
    with eq Cons.IH [OF Cons.prems] show ?thesis by simp
  next
    case False
    show ?thesis
    proof (cases "visited_table v s")
      case None
      show ?thesis
      proof (cases "h (Some s)")
        case (Inl e)
        with eq False None show ?thesis by simp
      next
        case (Inr hv)
        let ?f = "\<lambda>u. u\<lparr>result := (result u)\<lparr>visited := visited (result u) + 1\<rparr>,
                    visited_table := (visited_table u)(s \<mapsto> hv),
                    open_list := heappush (open_list u) (MkNode s (Some node) hv (g_value node + 1))\<rparr>"
        from eq have "same_search (?f v) (?f w)" by (simp add: same_search_def)
        from Cons.IH [OF this] eq False None Inr show ?thesis
          by (simp add: SearchNode_init_def)
      qed
    next
      case (Some hv)
      let ?f = "\<lambda>u. u\<lparr>open_list := heappush (open_list u) (MkNode s (Some node) hv (g_value node + 1))\<rparr>"
      from eq have "same_search (?f v) (?f w)" by (simp add: same_search_def)
      from Cons.IH [OF this] eq False Some show ?thesis
        by (simp add: SearchNode_init_def)
    qed
  qed
qed

lemma astar_iteration_same:
  assumes "same_search v w"
    and ok1: "\<not> (\<exists>seconds. rate1 = Some seconds \<and> seconds < 0)"
    and ok2: "\<not> (\<exists>seconds. rate2 = Some seconds \<and> seconds < 0)"
  shows "rel_sum (=) (rel_ctl same_search)
           (astar_iteration gr h rate1 n v) (astar_iteration gr h rate2 n w)"
proof (cases "heappop (open_list v)")
  case (Inl e)
  with assms show ?thesis by (simp add: astar_iteration_def same_search_def)
next
  case (Inr p)
  obtain node rest where p: "p = (node, rest)" by (cases p)
  from assms have eq: "open_list v = open_list w" "expanded v = expanded w"
    "visited_table v = visited_table w" "result v = result w"
    by (simp_all add: same_search_def)
  from Inr p eq have popv: "heappop (open_list v) = Inr (node, rest)"
    and popw: "heappop (open_list w) = Inr (node, rest)" by simp_all
  show ?thesis
  proof (cases "state node \<in> expanded v \<or> card (coins_collected (state node)) = n")
    case True
    with eq show ?thesis
      unfolding astar_iteration_pop [OF popv] astar_iteration_pop [OF popw]
      by (auto simp: same_search_def)
  next
    case False
    show ?thesis
    proof (cases "get_successor_states gr (state node)")
      case (Inl e)
      with False eq show ?thesis
        unfolding astar_iteration_pop [OF popv] astar_iteration_pop [OF popw] by simp
    next
      case (Inr successors)
      let ?f = "\<lambda>u. u\<lparr>open_list := rest,
            result := (result u)\<lparr>expansions := expansions (result u) + 1\<rparr>\<rparr>"
      from eq have "same_search (?f v) (?f w)" by (simp add: same_search_def)
      then have "rel_sum (=) same_search (successors_loop h node successors (?f v))
          (successors_loop h node successors (?f w))"
        by (rule successors_loop_same)
      then show ?thesis
        unfolding astar_iteration_pop [OF popv] astar_iteration_pop [OF popw]
        using False eq Inr ok1 ok2
        by (cases "successors_loop h node successors (?f v)";
            cases "successors_loop h node successors (?f w)")
           (simp_all add: same_search_def)
    qed
  qed
qed

lemma astar_loop_same_Some:
  assumes "astar_loop gr h rate1 n v = Some x"
    and ok2: "\<not> (\<exists>seconds. rate2 = Some seconds \<and> seconds < 0)"
  shows "\<not> (\<exists>seconds. rate1 = Some seconds \<and> seconds < 0) \<longrightarrow>
         (\<forall>w. same_search v w \<longrightarrow>
           (\<exists>y. astar_loop gr h rate2 n w = Some y \<and> rel_sum (=) same_search x y))"
proof (rule astar_loop.raw_induct [where P = "\<lambda>gr h rate n v x.
      \<not> (\<exists>seconds. rate = Some seconds \<and> seconds < 0) \<longrightarrow>
      (\<forall>w. same_search v w \<longrightarrow>
           (\<exists>y. astar_loop gr h rate2 n w = Some y \<and> rel_sum (=) same_search x y))",
      OF _ assms(1)])
  fix f :: "Grid \<Rightarrow> Heuristic \<Rightarrow> 'a::{zero,ord} option \<Rightarrow> nat \<Rightarrow> search_vars
      \<Rightarrow> (error + search_vars) option"
  fix gr h rate n v x
  assume IH: "\<And>gr h rate n v x. f gr h rate n v = Some x \<Longrightarrow>
      \<not> (\<exists>seconds. rate = Some seconds \<and> seconds < 0) \<longrightarrow>
      (\<forall>w. same_search v w \<longrightarrow>
           (\<exists>y. astar_loop gr h rate2 n w = Some y \<and> rel_sum (=) same_search x y))"
    and body: "(if open_list v = [] then Some (Inr v)
        else case astar_iteration gr h rate n v of
          Inl e \<Rightarrow> Some (Inl e)
        | Inr (Continue v') \<Rightarrow> f gr h rate n v'
        | Inr (Break v') \<Rightarrow> Some (Inr v')) = Some x"
  show "\<not> (\<exists>seconds. rate = Some seconds \<and> seconds < 0) \<longrightarrow>
      (\<forall>w. same_search v w \<longrightarrow>
           (\<exists>y. astar_loop gr h rate2 n w = Some y \<and> rel_sum (=) same_search x y))"
  proof (intro allI impI)
    assume ok1: "\<not> (\<exists>seconds. rate = Some seconds \<and> seconds < 0)"
    fix w assume same: "same_search v w"
    then have ol: "open_list w = open_list v" by (simp add: same_search_def)
    show "\<exists>y. astar_loop gr h rate2 n w = Some y \<and> rel_sum (=) same_search x y"
    proof (cases "open_list v = []")
      case True
      with body ol same show ?thesis by (auto simp: astar_loop.simps [of gr h rate2 n w])
    next
      case False
      note it = astar_iteration_same [OF same ok1 ok2, of gr h n]
      show ?thesis
      proof (cases "astar_iteration gr h rate n v")
        case (Inl e)
        with it obtain e' where "astar_iteration gr h rate2 n w = Inl e'" "e' = e"
          by (cases "astar_iteration gr h rate2 n w") simp_all
        with Inl body False ol show ?thesis
          by (auto simp: astar_loop.simps [of gr h rate2 n w])
      next
        case (Inr c)
        with it obtain c' where c': "astar_iteration gr h rate2 n w = Inr c'"
          "rel_ctl same_search c c'"
          by (cases "astar_iteration gr h rate2 n w") simp_all
        show ?thesis
        proof (cases c)
          case (Break v')
          with c'(2) obtain w' where "c' = Break w'" "same_search v' w'"
            by (cases c') simp_all
          with Break Inr c'(1) body False ol show ?thesis
            by (auto simp: astar_loop.simps [of gr h rate2 n w])
        next
          case (Continue v')
          with c'(2) obtain w' where w': "c' = Continue w'" "same_search v' w'"
            by (cases c') simp_all
          from Continue Inr body False have "f gr h rate n v' = Some x" by simp
          from IH [OF this] ok1 w'(2)
          obtain y where "astar_loop gr h rate2 n w' = Some y" "rel_sum (=) same_search x y"
            by blast
          with w'(1) c'(1) False ol show ?thesis
            by (simp add: astar_loop.simps [of gr h rate2 n w])
        qed
      qed
    qed
  qed
qed

lemma astar_loop_same:
  assumes "same_search v w"
    and ok1: "\<not> (\<exists>seconds. rate1 = Some seconds \<and> seconds < 0)"
    and ok2: "\<not> (\<exists>seconds. rate2 = Some seconds \<and> seconds < 0)"
  shows "rel_option (rel_sum (=) same_search)
           (astar_loop gr h rate1 n v) (astar_loop gr h rate2 n w)"
proof (cases "astar_loop gr h rate1 n v")
  case None
  show ?thesis
  proof (cases "astar_loop gr h rate2 n w")
    case None
    with \<open>astar_loop gr h rate1 n v = None\<close> show ?thesis by simp
  next
    case (Some y)
    from assms have "same_search w v" by (simp add: same_search_def)
    with astar_loop_same_Some [OF Some ok1] ok2 None show ?thesis by auto
  qed
next
  case (Some x)
  with astar_loop_same_Some [OF Some ok2] ok1 assms(1) show ?thesis by auto
qed

text \<open>
  The outcome of \<^verbatim>\<open>astar_search\<close> (the plan and the two counters, or the exception, or
  no outcome at all) is the same for every \<^verbatim>\<open>print_rate_per_sec\<close> that is \<^verbatim>\<open>None\<close> or
  not negative: whether and how often the progress is drawn in between does not change
  it. A negative number makes the first iteration that expands a node raise
  \<^verbatim>\<open>ValueError\<close>.
\<close>

lemma astar_search_same_outcome:
  assumes "\<not> (\<exists>seconds. rate1 = Some seconds \<and> seconds < 0)"
    and "\<not> (\<exists>seconds. rate2 = Some seconds \<and> seconds < 0)"
  shows "astar_search gr heuristic rate1 = astar_search gr heuristic rate2"
proof (cases "astar_init gr heuristic")
  case (Inl e)
  then show ?thesis by (simp add: astar_search_def astar_run_def)
next
  case (Inr p)
  obtain n v where p: "p = (n, v)" by (cases p)
  from astar_loop_same [OF same_search_refl assms, of gr heuristic n v]
  have "map_option (map_sum id result) (astar_loop gr heuristic rate1 n v)
      = map_option (map_sum id result) (astar_loop gr heuristic rate2 n v)"
    by (cases "astar_loop gr heuristic rate1 n v"; cases "astar_loop gr heuristic rate2 n v")
       (auto simp: same_search_def elim!: rel_sum.cases)
  with Inr p show ?thesis by (simp add: astar_search_def astar_run_def)
qed

lemma astar_search_negative_rate:
  "astar_search quad (BlindHeuristic quad) (None :: int option)
     = Some (Inr \<lparr>expansions = 4, visited = 3,
                   plan = Some [\<lparr>pos_x = 0, pos_y = 0, coins_collected = {}\<rparr>,
                                \<lparr>pos_x = 0, pos_y = 1, coins_collected = {}\<rparr>,
                                \<lparr>pos_x = 1, pos_y = 1, coins_collected = {0}\<rparr>]\<rparr>)
   \<and> astar_search quad (BlindHeuristic quad) (Some (1 :: int))
       = astar_search quad (BlindHeuristic quad) (None :: int option)
   \<and> astar_search quad (BlindHeuristic quad) (Some (- 1 :: int)) = Some (Inl ValueError)"
  by code_simp

section \<open>A grid without coins\<close>

lemma initial_state_loop_coins:
  "initial_state_loop gr ps = Inr (Some s) \<Longrightarrow> coins_collected s = {}"
proof (induction ps)
  case Nil
  then show ?case by simp
next
  case (Cons p ps)
  obtain cx cy where "p = (cx, cy)" by (cases p)
  with Cons show ?case by (auto split: sum.splits if_splits)
qed

lemma get_initial_state_coins:
  "get_initial_state gr = Inr (Some s) \<Longrightarrow> coins_collected s = {}"
  unfolding get_initial_state_def by (rule initial_state_loop_coins)

lemma extract_plan_root: "extract_plan (MkNode s None hv gv) = [s]"
  by (simp add: extract_plan_def)

lemma astar_search_goal_at_start:
  assumes init: "get_initial_state gr = Inr (Some s0)"
    and coins: "get_coin_locations gr = Inr []"
    and hv: "heuristic (Some s0) = Inr hv"
  shows "astar_search gr heuristic rate
         = Some (Inr \<lparr>expansions = 1, visited = 0, plan = Some [s0]\<rparr>)"
proof -
  let ?root = "MkNode s0 None hv 0"
  let ?v = "\<lparr>open_list = [?root], expanded = {}, visited_table = [s0 \<mapsto> hv],
             result = \<lparr>expansions = 0, visited = 0, plan = None\<rparr>, frames = 1\<rparr>"
  from assms have i: "astar_init gr heuristic = Inr (0, ?v)"
    by (simp add: astar_init_def SearchNode_init_def)
  have pop: "heappop (open_list ?v) = Inr (?root, [])" by (simp add: heappop_single)
  from get_initial_state_coins [OF init]
  have "astar_iteration gr heuristic rate 0 ?v
      = Inr (Break (?v\<lparr>open_list := [],
                      result := (result ?v)\<lparr>expansions := expansions (result ?v) + 1,
                                            plan := Some (extract_plan ?root)\<rparr>,
                      frames := frames ?v + 1\<rparr>))"
    unfolding astar_iteration_pop [OF pop] by simp
  then have "astar_loop gr heuristic rate 0 ?v
      = Some (Inr (?v\<lparr>open_list := [],
                      result := (result ?v)\<lparr>expansions := expansions (result ?v) + 1,
                                            plan := Some (extract_plan ?root)\<rparr>,
                      frames := frames ?v + 1\<rparr>))"
    by (subst astar_loop.simps) simp
  with i show ?thesis
    by (simp add: astar_search_def astar_run_def extract_plan_root)
qed

lemma no_coin_cells:
  assumes "wf_grid gr" and "\<not> (\<exists>k. Coin k \<in> set (concat (grid gr)))"
  shows "coin_cells gr = []"
proof -
  have "\<not> holds_coin gr (int (fst p)) (int (snd p))" if "p \<in> set (cell_range gr)" for p
  proof
    assume h: "holds_coin gr (int (fst p)) (int (snd p))"
    from that have "is_within_boundaries gr (int (fst p)) (int (snd p))"
      using cell_range_all_within by blast
    then have "cell_at gr (int (fst p)) (int (snd p)) \<in> set (concat (grid gr))"
      unfolding cells_of_wf_grid [OF assms(1)] by blast
    with h assms(2) show False by (auto simp: holds_coin_def split: cell.splits)
  qed
  then show ?thesis by (simp add: coin_cells_def filter_empty_conv)
qed

text \<open>
  Claim C6: on a well-formed grid with an agent cell and no coin, \<^verbatim>\<open>astar_search\<close>
  with any heuristic that returns a value for the initial state ends in its first
  iteration: one expansion, no state visited, and the plan that consists of the initial
  state.
\<close>

theorem astar_search_zero_items:
  assumes "wf_grid gr"
    and "AGENT_SYMBOL \<in> set (concat (grid gr))"
    and "\<not> (\<exists>k. Coin k \<in> set (concat (grid gr)))"
  shows "\<exists>s0. get_initial_state gr = Inr (Some s0)
           \<and> (\<forall>heuristic hv rate. heuristic (Some s0) = Inr hv \<longrightarrow>
                astar_search gr heuristic rate
                  = Some (Inr \<lparr>expansions = 1, visited = 0, plan = Some [s0]\<rparr>))"
proof -
  from initial_state_loop_some [OF assms(1) cell_range_all_within agent_in_range [OF assms(1,2)]]
  obtain s0 where init: "get_initial_state gr = Inr (Some s0)"
    unfolding get_initial_state_def by blast
  from assms(1,3) have coins: "get_coin_locations gr = Inr []"
    by (simp add: get_coin_locations_wf no_coin_cells)
  from astar_search_goal_at_start [OF init coins] init show ?thesis by blast
qed

theorem astar_search_zero_items_witness:
  "wf_grid empty_corridor
   \<and> AGENT_SYMBOL \<in> set (concat (grid empty_corridor))
   \<and> \<not> (\<exists>k. Coin k \<in> set (concat (grid empty_corridor)))
   \<and> BlindHeuristic empty_corridor (Some \<lparr>pos_x = 0, pos_y = 0, coins_collected = {}\<rparr>) = Inr 0
   \<and> astar_search empty_corridor (BlindHeuristic empty_corridor) (None :: int option)
       = Some (Inr \<lparr>expansions = 1, visited = 0,
                     plan = Some [\<lparr>pos_x = 0, pos_y = 0, coins_collected = {}\<rparr>]\<rparr>)"
proof -
  have yes: "AGENT_SYMBOL \<in> set (concat (grid empty_corridor))"
    by (simp add: empty_corridor_def)
  have no: "\<not> (\<exists>k. Coin k \<in> set (concat (grid empty_corridor)))"
    by (simp add: empty_corridor_def AGENT_SYMBOL_def EMPTY_SYMBOL_def)
  have init: "get_initial_state empty_corridor
      = Inr (Some \<lparr>pos_x = 0, pos_y = 0, coins_collected = {}\<rparr>)"
    by code_simp
  have h: "BlindHeuristic empty_corridor (Some \<lparr>pos_x = 0, pos_y = 0, coins_collected = {}\<rparr>) = Inr 0"
    by (simp add: BlindHeuristic_def)
  from astar_search_zero_items [OF wf_empty_corridor yes no] init h
  have "astar_search empty_corridor (BlindHeuristic empty_corridor) (None :: int option)
       = Some (Inr \<lparr>expansions = 1, visited = 0,
                     plan = Some [\<lparr>pos_x = 0, pos_y = 0, coins_collected = {}\<rparr>]\<rparr>)"
    by auto
  with wf_empty_corridor yes no h show ?thesis by simp
qed

section \<open>The open list is a heap\<close>

lemma lt_node_key: "SearchNode_lt a b \<Longrightarrow> node_key a \<le> node_key b"
  by (auto simp: SearchNode_lt_def node_key_def less_eq_prod_def split: if_splits)

lemma not_lt_node_key: "\<not> SearchNode_lt a b \<Longrightarrow> node_key b \<le> node_key a"
  by (auto simp: SearchNode_lt_def node_key_def less_eq_prod_def split: if_splits)

lemma heap_holeD1:
  "heap_hole heap pos \<Longrightarrow> 0 < i \<Longrightarrow> i < length heap \<Longrightarrow> i \<noteq> pos \<Longrightarrow> (i - 1) div 2 \<noteq> pos \<Longrightarrow>
   node_key (heap ! ((i - 1) div 2)) \<le> node_key (heap ! i)"
  by (simp add: heap_hole_def)

lemma heap_holeD2:
  "heap_hole heap pos \<Longrightarrow> 0 < pos \<Longrightarrow> 0 < c \<Longrightarrow> c < length heap \<Longrightarrow> (c - 1) div 2 = pos \<Longrightarrow>
   node_key (heap ! ((pos - 1) div 2)) \<le> node_key (heap ! c)"
  by (simp add: heap_hole_def)

lemma siftdown_loop_heap_ok:
  assumes "pos < length heap" and "heap_hole heap pos"
    and "\<forall>c. 0 < c \<and> c < length heap \<and> (c - 1) div 2 = pos \<longrightarrow>
           node_key newitem \<le> node_key (heap ! c)"
  shows "heap_ok (siftdown_loop heap newitem 0 pos)"
  using assms
proof (induction heap newitem "0::nat" pos rule: siftdown_loop.induct)
  case (1 heap newitem pos)
  let ?pp = "(pos - 1) div 2"
  note hole = "1.prems"(2) and kids = "1.prems"(3) and len = "1.prems"(1)
  show ?case
  proof (cases "0 < pos \<and> SearchNode_lt newitem (heap ! ?pp)")
    case True
    then have pos: "0 < pos" and lt: "SearchNode_lt newitem (heap ! ?pp)" by simp_all
    from pos have pp: "?pp < pos" by arith
    let ?h = "heap[pos := heap ! ?pp]"
    have up: "node_key (heap ! ((?pp - 1) div 2)) \<le> node_key (heap ! ?pp)" if "0 < ?pp"
      using heap_holeD1 [OF hole that] pp len by simp
    have h1: "heap_hole ?h ?pp"
      unfolding heap_hole_def
    proof (intro conjI allI impI)
      fix i
      assume i: "0 < i \<and> i < length ?h \<and> i \<noteq> ?pp \<and> (i - 1) div 2 \<noteq> ?pp"
      then have ip: "i \<noteq> pos" by auto
      show "node_key (?h ! ((i - 1) div 2)) \<le> node_key (?h ! i)"
      proof (cases "(i - 1) div 2 = pos")
        case True
        with i ip len pos heap_holeD2 [OF hole pos, of i] show ?thesis by simp
      next
        case False
        with i ip len heap_holeD1 [OF hole, of i] show ?thesis by simp
      qed
    next
      fix c
      assume c: "0 < ?pp \<and> 0 < c \<and> c < length ?h \<and> (c - 1) div 2 = ?pp"
      then have ppp: "(?pp - 1) div 2 \<noteq> pos" using pp by arith
      show "node_key (?h ! ((?pp - 1) div 2)) \<le> node_key (?h ! c)"
      proof (cases "c = pos")
        case True
        with c ppp len up show ?thesis by simp
      next
        case False
        with c pp len heap_holeD1 [OF hole, of c] have "node_key (heap ! ?pp) \<le> node_key (heap ! c)"
          by simp
        with up c have "node_key (heap ! ((?pp - 1) div 2)) \<le> node_key (heap ! c)"
          by (meson order_trans)
        with False ppp show ?thesis by simp
      qed
    qed
    have h2: "\<forall>c. 0 < c \<and> c < length ?h \<and> (c - 1) div 2 = ?pp \<longrightarrow>
           node_key newitem \<le> node_key (?h ! c)"
    proof (intro allI impI)
      fix c
      assume c: "0 < c \<and> c < length ?h \<and> (c - 1) div 2 = ?pp"
      from lt have k: "node_key newitem \<le> node_key (heap ! ?pp)" by (rule lt_node_key)
      show "node_key newitem \<le> node_key (?h ! c)"
      proof (cases "c = pos")
        case True
        with k len show ?thesis by simp
      next
        case False
        with c pp len heap_holeD1 [OF hole, of c] have "node_key (heap ! ?pp) \<le> node_key (heap ! c)"
          by simp
        with k False show ?thesis by (simp add: order_trans)
      qed
    qed
    from pp len have "?pp < length ?h" by simp
    from "1.hyps" [OF _ lt this h1 h2] pos have "heap_ok (siftdown_loop ?h newitem 0 ?pp)" by simp
    with True show ?thesis by (subst siftdown_loop.simps) simp
  next
    case False
    have "heap_ok (heap[pos := newitem])"
      unfolding heap_ok_def
    proof (intro allI impI)
      fix i
      assume i: "0 < i \<and> i < length (heap[pos := newitem])"
      show "node_key (heap[pos := newitem] ! ((i - 1) div 2)) \<le> node_key (heap[pos := newitem] ! i)"
      proof (cases "i = pos")
        case True
        with i have "?pp \<noteq> pos" by arith
        moreover from True i False have "node_key (heap ! ?pp) \<le> node_key newitem"
          by (simp add: not_lt_node_key)
        ultimately show ?thesis using True len by simp
      next
        case ip: False
        show ?thesis
        proof (cases "(i - 1) div 2 = pos")
          case True
          with i ip kids len show ?thesis by simp
        next
          case False
          with i ip heap_holeD1 [OF hole, of i] show ?thesis by simp
        qed
      qed
    qed
    with False show ?thesis by (subst siftdown_loop.simps) auto
  qed
qed

lemma child_cases:
  "0 < c \<and> (c - 1) div 2 = pos \<longleftrightarrow> c = 2 * pos + 1 \<or> c = 2 * pos + (2::nat)"
  by arith

lemma siftup_loop_heap_hole:
  assumes "pos < length heap" and "heap_hole heap pos"
    and "siftup_loop heap (length heap) pos = (heap', leaf)"
  shows "heap_hole heap' leaf \<and> length heap' \<le> 2 * leaf + 1"
  using assms
proof (induction heap "length heap" pos arbitrary: heap' leaf rule: siftup_loop.induct)
  case (1 heap pos)
  note len = "1.prems"(1) and hole = "1.prems"(2) and res = "1.prems"(3)
  show ?case
  proof (cases "2 * pos + 1 < length heap")
    case False
    with res have "heap' = heap" "leaf = pos"
      by (simp_all add: siftup_loop.simps [of heap "length heap" pos])
    with hole False show ?thesis by simp
  next
    case child: True
    let ?l = "2 * pos + 1" and ?r = "2 * pos + 2"
    define c where "c = (if ?r < length heap \<and> \<not> SearchNode_lt (heap ! ?l) (heap ! ?r)
      then ?r else ?l)"
    have c: "c < length heap" "pos < c" "c = ?l \<or> c = ?r" using child by (auto simp: c_def)
    let ?h = "heap[pos := heap ! c]"
    from child res have rec: "siftup_loop ?h (length ?h) c = (heap', leaf)"
      by (auto simp: siftup_loop.simps [of heap "length heap" pos] c_def split: if_splits)
    have smaller: "node_key (heap ! c) \<le> node_key (heap ! i)"
      if "i < length heap" "i = ?l \<or> i = ?r" for i
    proof (cases "?r < length heap \<and> \<not> SearchNode_lt (heap ! ?l) (heap ! ?r)")
      case True
      then have "c = ?r" by (simp add: c_def)
      moreover from True have "node_key (heap ! ?r) \<le> node_key (heap ! ?l)"
        by (simp add: not_lt_node_key)
      ultimately show ?thesis using that by auto
    next
      case False
      then have cl: "c = ?l" by (auto simp: c_def)
      show ?thesis
      proof (cases "i = ?l")
        case True
        with cl show ?thesis by simp
      next
        case ir: False
        with that have "i = ?r" "?r < length heap" by simp_all
        with False have "SearchNode_lt (heap ! ?l) (heap ! ?r)" by simp
        then have "node_key (heap ! ?l) \<le> node_key (heap ! ?r)" by (rule lt_node_key)
        with cl \<open>i = ?r\<close> show ?thesis by simp
      qed
    qed
    have h1: "heap_hole ?h c"
      unfolding heap_hole_def
    proof (intro conjI allI impI)
      fix i
      assume i: "0 < i \<and> i < length ?h \<and> i \<noteq> c \<and> (i - 1) div 2 \<noteq> c"
      show "node_key (?h ! ((i - 1) div 2)) \<le> node_key (?h ! i)"
      proof (cases "i = pos")
        case True
        with i have "(pos - 1) div 2 \<noteq> pos" "0 < pos" by arith+
        moreover from c have "(c - 1) div 2 = pos" "0 < c" by auto
        with heap_holeD2 [OF hole \<open>0 < pos\<close>, of c] c(1)
        have "node_key (heap ! ((pos - 1) div 2)) \<le> node_key (heap ! c)" by simp
        ultimately show ?thesis using True len by simp
      next
        case ip: False
        show ?thesis
        proof (cases "(i - 1) div 2 = pos")
          case True
          with i have "i = ?l \<or> i = ?r" using child_cases [of i pos] by simp
          with smaller [of i] i have "node_key (heap ! c) \<le> node_key (heap ! i)" by simp
          with True ip len show ?thesis by simp
        next
          case False
          with i ip heap_holeD1 [OF hole, of i] show ?thesis by simp
        qed
      qed
    next
      fix d
      assume d: "0 < c \<and> 0 < d \<and> d < length ?h \<and> (d - 1) div 2 = c"
      from c have pc: "(c - 1) div 2 = pos" by auto
      from d c have dp: "d \<noteq> pos" "(d - 1) div 2 \<noteq> pos" by arith+
      with d heap_holeD1 [OF hole, of d] have "node_key (heap ! c) \<le> node_key (heap ! d)" by simp
      with pc dp len show "node_key (?h ! ((c - 1) div 2)) \<le> node_key (?h ! d)" by simp
    qed
    have "length ?h = length heap" by simp
    moreover from c have "c < length ?h" by simp
    ultimately show ?thesis
    proof (cases "?r < length heap \<and> \<not> SearchNode_lt (heap ! ?l) (heap ! ?r)")
      case True
      then have ceq: "c = ?r" by (simp add: c_def)
      from "1.hyps"(1) [OF child True, of heap' leaf] c h1 rec show ?thesis
        unfolding ceq by simp
    next
      case False
      then have ceq: "c = ?l" by (auto simp: c_def)
      from "1.hyps"(2) [OF child False, of heap' leaf] c h1 rec show ?thesis
        unfolding ceq by simp
    qed
  qed
qed

lemma siftdown_heap_ok:
  assumes "pos < length heap" and "heap_hole heap pos" and "length heap \<le> 2 * pos + 1"
  shows "heap_ok (siftdown heap 0 pos)"
  unfolding siftdown_def
proof (rule siftdown_loop_heap_ok [OF assms(1,2)])
  show "\<forall>c. 0 < c \<and> c < length heap \<and> (c - 1) div 2 = pos \<longrightarrow>
           node_key (heap ! pos) \<le> node_key (heap ! c)"
    using assms(3) child_cases by auto
qed

lemma heap_hole_update:
  assumes "heap_hole heap pos" and "length heap \<le> 2 * pos + 1"
  shows "heap_hole (heap[pos := x]) pos"
  unfolding heap_hole_def
proof (intro conjI allI impI)
  fix i
  assume "0 < i \<and> i < length (heap[pos := x]) \<and> i \<noteq> pos \<and> (i - 1) div 2 \<noteq> pos"
  with heap_holeD1 [OF assms(1), of i]
  show "node_key (heap[pos := x] ! ((i - 1) div 2)) \<le> node_key (heap[pos := x] ! i)" by simp
next
  fix c
  assume "0 < pos \<and> 0 < c \<and> c < length (heap[pos := x]) \<and> (c - 1) div 2 = pos"
  with assms(2) child_cases [of c pos] have False by auto
  then show "node_key (heap[pos := x] ! ((pos - 1) div 2)) \<le> node_key (heap[pos := x] ! c)" ..
qed

lemma siftup_heap_ok:
  assumes "heap \<noteq> []" and "heap_hole heap 0"
  shows "heap_ok (siftup heap 0)"
proof -
  obtain heap' leaf where r: "siftup_loop heap (length heap) 0 = (heap', leaf)"
    by (cases "siftup_loop heap (length heap) 0")
  from assms(1) have pos: "0 < length heap" by simp
  from siftup_loop_props [OF pos order_refl r] have leaf: "leaf < length heap'" by simp
  from siftup_loop_heap_hole [OF pos assms(2) r]
  have "heap_hole heap' leaf" "length heap' \<le> 2 * leaf + 1" by simp_all
  then have "heap_hole (heap'[leaf := heap ! 0]) leaf"
    "length (heap'[leaf := heap ! 0]) \<le> 2 * leaf + 1"
    by (simp_all add: heap_hole_update)
  moreover from leaf have "leaf < length (heap'[leaf := heap ! 0])" by simp
  ultimately have "heap_ok (siftdown (heap'[leaf := heap ! 0]) 0 leaf)"
    by (intro siftdown_heap_ok)
  with r show ?thesis by (simp add: siftup_def)
qed

lemma heap_ok_hole_last:
  assumes "heap_ok heap"
  shows "heap_hole (heap @ [x]) (length heap)"
  unfolding heap_hole_def
proof (intro conjI allI impI)
  fix i
  assume i: "0 < i \<and> i < length (heap @ [x]) \<and> i \<noteq> length heap \<and> (i - 1) div 2 \<noteq> length heap"
  then have "i < length heap" "(i - 1) div 2 < length heap" by (simp_all, arith+)
  with i assms show "node_key ((heap @ [x]) ! ((i - 1) div 2)) \<le> node_key ((heap @ [x]) ! i)"
    by (simp add: heap_ok_def nth_append)
next
  fix c
  assume "0 < length heap \<and> 0 < c \<and> c < length (heap @ [x]) \<and> (c - 1) div 2 = length heap"
  then have False by (simp, arith)
  then show "node_key ((heap @ [x]) ! ((length heap - 1) div 2)) \<le> node_key ((heap @ [x]) ! c)" ..
qed

lemma heappush_heap_ok:
  assumes "heap_ok heap"
  shows "heap_ok (heappush heap item)"
  unfolding heappush_def
  by (rule siftdown_heap_ok) (simp_all add: heap_ok_hole_last [OF assms])

lemma heap_ok_root_least:
  assumes "heap_ok heap"
  shows "i < length heap \<Longrightarrow> node_key (heap ! 0) \<le> node_key (heap ! i)"
proof (induction i rule: less_induct)
  case (less i)
  show ?case
  proof (cases "i = 0")
    case True
    then show ?thesis by simp
  next
    case False
    then have p: "(i - 1) div 2 < i" by arith
    with less.prems have "(i - 1) div 2 < length heap" by simp
    from less.IH [OF p this] have "node_key (heap ! 0) \<le> node_key (heap ! ((i - 1) div 2))" .
    also from assms False less.prems have "\<dots> \<le> node_key (heap ! i)"
      by (simp add: heap_ok_def)
    finally show ?thesis .
  qed
qed

lemma heappop_heap_ok:
  assumes "heap_ok heap" and "heappop heap = Inr (node, rest)"
  shows "heap_ok rest" and "\<forall>m \<in> set heap. node_key node \<le> node_key m"
proof -
  show "\<forall>m \<in> set heap. node_key node \<le> node_key m"
  proof
    fix m assume "m \<in> set heap"
    then obtain i where i: "i < length heap" "m = heap ! i" by (auto simp: in_set_conv_nth)
    from assms(2) have "heap \<noteq> []" by (auto simp: heappop_def)
    with assms(2) have "node = heap ! 0"
      by (cases heap rule: rev_cases; cases "butlast heap")
         (auto simp: heappop_def nth_append hd_conv_nth split: if_splits)
    with heap_ok_root_least [OF assms(1) i(1)] i(2) show "node_key node \<le> node_key m" by simp
  qed
  show "heap_ok rest"
  proof (cases "butlast heap = []")
    case True
    with assms(2) have "rest = []" by (auto simp: heappop_def split: if_splits)
    then show ?thesis by (simp add: heap_ok_def)
  next
    case False
    with assms(2) have r: "rest = siftup ((butlast heap)[0 := last heap]) 0"
      by (auto simp: heappop_def split: if_splits)
    let ?h = "(butlast heap)[0 := last heap]"
    have "heap_hole ?h 0"
      unfolding heap_hole_def
    proof (intro conjI allI impI)
      fix i
      assume i: "0 < i \<and> i < length ?h \<and> i \<noteq> 0 \<and> (i - 1) div 2 \<noteq> 0"
      then have "i < length heap" "i < length (butlast heap)" "(i - 1) div 2 < length (butlast heap)"
        by auto
      with i assms(1) show "node_key (?h ! ((i - 1) div 2)) \<le> node_key (?h ! i)"
        by (simp add: heap_ok_def nth_butlast)
    qed simp
    moreover from False have "?h \<noteq> []" by simp
    ultimately show ?thesis unfolding r by (intro siftup_heap_ok)
  qed
qed

lemma successors_loop_heap_ok:
  "successors_loop h node succs v = Inr v' \<Longrightarrow> heap_ok (open_list v) \<Longrightarrow> heap_ok (open_list v')"
proof (induction succs arbitrary: v)
  case Nil
  then show ?case by simp
next
  case (Cons s rest)
  from Cons.prems(1) show ?case
  proof (cases rule: successors_loop_Cons_cases)
    case skip
    with Cons show ?thesis by blast
  next
    case (first hv)
    from Cons.IH [OF first(4)] Cons.prems(2) show ?thesis by (simp add: heappush_heap_ok)
  next
    case (cached hv)
    from Cons.IH [OF cached(3)] Cons.prems(2) show ?thesis by (simp add: heappush_heap_ok)
  qed
qed

lemma reachable_heap_ok:
  assumes "reachable gr heuristic rate num_coins c"
  shows "heap_ok (open_list (vars_of c))"
  using assms
proof (induction rule: reachable.induct)
  case (start v)
  then obtain root where "open_list v = [root]"
    by (auto simp: astar_init_def split: sum.splits)
  then show ?case by (simp add: heap_ok_def vars_of_def)
next
  case (iteration v c)
  from iteration.IH have ok: "heap_ok (open_list v)" by (simp add: vars_of_def)
  from iteration.hyps(2,3) show ?case
  proof (cases rule: astar_iteration_cases)
    case (skip node rest)
    with heappop_heap_ok(1) [OF ok skip(1)] show ?thesis by (simp add: vars_of_def)
  next
    case (goal node rest)
    with heappop_heap_ok(1) [OF ok goal(1)] show ?thesis by (simp add: vars_of_def)
  next
    case (expand node rest successors v')
    from heappop_heap_ok(1) [OF ok expand(1)] successors_loop_heap_ok [OF expand(5)]
    have "heap_ok (open_list v')" by simp
    with expand(6) show ?thesis by (simp add: vars_of_def)
  qed
qed

lemma SearchNode_lt_iff:
  "SearchNode_lt a b \<longleftrightarrow>
     get_f_value a < get_f_value b
     \<or> (get_f_value a = get_f_value b
        \<and> (g_value a < g_value b
           \<or> (g_value a = g_value b \<and> State_lt (state a) (state b))))"
  by (auto simp: SearchNode_lt_def State_eq_iff State_lt_irrefl)

text \<open>
  Claim C1 says that of two nodes with equal \<open>f\<close> the one with the larger \<open>g\<close> is popped
  first. The comparison is that of the tuples \<^verbatim>\<open>(f, g, state)\<close>, so the smaller \<open>g\<close>
  wins: of two nodes of the example run with \<open>f = 4\<close>, the one with \<open>g = 1\<close> is less than
  the one with \<open>g = 2\<close> and leaves a heap of the two first, in whichever order they were
  pushed.
\<close>

theorem larger_g_is_popped_later:
  "get_f_value field_deep = get_f_value field_shallow
   \<and> g_value field_deep > g_value field_shallow
   \<and> SearchNode_lt field_shallow field_deep
   \<and> \<not> SearchNode_lt field_deep field_shallow
   \<and> heappop (heappush (heappush [] field_deep) field_shallow) = Inr (field_shallow, [field_deep])
   \<and> heappop (heappush (heappush [] field_shallow) field_deep) = Inr (field_shallow, [field_deep])"
  by code_simp

text \<open>
  Claim C1 as amended: nodes are compared by \<^verbatim>\<open>(f, g, state)\<close>, smaller \<open>f\<close> first,
  ties in \<open>f\<close> broken by the smaller \<open>g\<close>, remaining ties by the comparison of the
  states; so of two nodes with equal \<open>f\<close> the one with the smaller \<open>g\<close> is the lesser.
  At every point of a run the node that \<^verbatim>\<open>heappop\<close> takes from the open list has the
  least \<^verbatim>\<open>(f, g)\<close> of all nodes in it; so while a node \<open>a\<close> is in the open list, no node
  \<open>b\<close> with the same \<open>f\<close> and a greater \<open>g\<close> is popped.
\<close>

theorem open_list_order:
  "(SearchNode_lt a b \<longleftrightarrow>
      get_f_value a < get_f_value b
      \<or> (get_f_value a = get_f_value b
         \<and> (g_value a < g_value b
            \<or> (g_value a = g_value b \<and> State_lt (state a) (state b)))))
   \<and> (get_f_value a = get_f_value b \<and> g_value a < g_value b \<longrightarrow>
        SearchNode_lt a b \<and> \<not> SearchNode_lt b a)
   \<and> (reachable gr heuristic rate num_coins (Continue v)
        \<and> heappop (open_list v) = Inr (node, rest) \<longrightarrow>
        (\<forall>m \<in> set (open_list v).
           get_f_value node < get_f_value m
           \<or> (get_f_value node = get_f_value m \<and> g_value node \<le> g_value m)))
   \<and> (reachable gr heuristic rate num_coins (Continue v)
        \<and> heappop (open_list v) = Inr (node, rest)
        \<and> a \<in> set (open_list v) \<and> b \<in> set (open_list v)
        \<and> get_f_value a = get_f_value b \<and> g_value a < g_value b \<longrightarrow>
        node \<noteq> b)"
proof -
  have min: "\<forall>m \<in> set (open_list v).
           get_f_value node < get_f_value m
           \<or> (get_f_value node = get_f_value m \<and> g_value node \<le> g_value m)"
    if "reachable gr heuristic rate num_coins (Continue v)"
      and "heappop (open_list v) = Inr (node, rest)"
  proof -
    from reachable_heap_ok [OF that(1)] have "heap_ok (open_list v)" by (simp add: vars_of_def)
    from heappop_heap_ok(2) [OF this that(2)] show ?thesis
      by (auto simp: node_key_def less_eq_prod_def)
  qed
  have "node \<noteq> b"
    if "reachable gr heuristic rate num_coins (Continue v)"
      and "heappop (open_list v) = Inr (node, rest)"
      and "a \<in> set (open_list v)" and "get_f_value a = get_f_value b" and "g_value a < g_value b"
  proof
    assume "node = b"
    with min [OF that(1,2)] that(3) have "get_f_value b < get_f_value a
           \<or> (get_f_value b = get_f_value a \<and> g_value b \<le> g_value a)" by blast
    with that(4,5) show False by simp
  qed
  with min show ?thesis
    using SearchNode_lt_iff [of a b] SearchNode_lt_iff [of b a] by auto
qed

theorem open_list_order_witness:
  "reachable field (ManhattanMaxHeuristic field) (None :: int option) 1
     (Continue (vars_of field_ctl2))
   \<and> heappop (open_list (vars_of field_ctl2)) = Inr (field_goal, [field_shallow, field_deep])
   \<and> field_shallow \<in> set (open_list (vars_of field_ctl2))
   \<and> field_deep \<in> set (open_list (vars_of field_ctl2))
   \<and> get_f_value field_shallow = get_f_value field_deep
   \<and> g_value field_shallow < g_value field_deep
   \<and> SearchNode_lt field_shallow field_deep \<and> \<not> SearchNode_lt field_deep field_shallow
   \<and> field_goal \<noteq> field_deep
   \<and> get_f_value field_goal < get_f_value field_deep"
proof -
  have pop: "heappop (open_list (vars_of field_ctl2)) = Inr (field_goal, [field_shallow, field_deep])"
    unfolding field_open_lists by code_simp
  have mem: "field_shallow \<in> set (open_list (vars_of field_ctl2))"
    "field_deep \<in> set (open_list (vars_of field_ctl2))"
    unfolding field_open_lists by simp_all
  have key: "get_f_value field_shallow = get_f_value field_deep"
    "g_value field_shallow < g_value field_deep"
    "get_f_value field_goal = 2" "get_f_value field_deep = 4"
    by code_simp+
  from open_list_order [of field_shallow field_deep field "ManhattanMaxHeuristic field"
      "None :: int option" 1 "vars_of field_ctl2" field_goal "[field_shallow, field_deep]"]
    field_reachable(3) pop mem key
  show ?thesis by simp
qed

end
